theory Spec2Isabelle
  imports Main "HOL-Library.AList" "HOL-Library.Multiset"
begin

section \<open>Python values used by the storage core\<close>

text \<open>
  The server keeps every dictionary in insertion order; a dictionary is modelled as an
  association list with pairwise different keys. \<open>AList.update\<close> overwrites the value of a
  present key in place and appends an absent key at the end, \<open>AList.delete\<close> removes a
  key, \<open>map_of\<close> looks a key up. Exceptions are values of the type \<open>error\<close>; an operation
  on a mutable object returns its outcome together with the object as the call leaves it,
  also when the call raises.
\<close>

datatype error = ValueError | KeyError | IndexError | TypeError | AttributeError

text \<open>An identifier as the handlers pass it: an \<open>int\<close>, a \<open>str\<close>, or a value of another type.\<close>

datatype pyval = PyInt int | PyStr string | PyOther

definition digit_char :: "nat \<Rightarrow> char" where
  "digit_char d = ''0123456789'' ! d"

fun str_nat :: "nat \<Rightarrow> string" where
  "str_nat n = (if n < 10 then [digit_char n] else str_nat (n div 10) @ [digit_char (n mod 10)])"

declare str_nat.simps [simp del]

text \<open>\<open>str(i)\<close> for a Python integer: decimal digits, a leading minus sign when negative.\<close>

definition str :: "int \<Rightarrow> string" where
  "str i = (if i < 0 then CHR ''-'' # str_nat (nat (- i)) else str_nat (nat i))"

text \<open>\<open>normalize_id\<close>; the module constant \<open>MAX_ID_LEN\<close> is a parameter.\<close>

definition normalize_id :: "int \<Rightarrow> pyval \<Rightarrow> error + string" where
  "normalize_id MAX_ID_LEN v =
     (case v of
        PyInt i \<Rightarrow> (if int (length (str i)) > MAX_ID_LEN then Inl ValueError else Inr (str i))
      | PyStr s \<Rightarrow> (if int (length s) > MAX_ID_LEN then Inl ValueError else Inr s)
      | PyOther \<Rightarrow> Inl ValueError)"

section \<open>InMemoryLinks\<close>

record InMemoryLinks =
  links_max_count :: int
  links :: "(string \<times> string) list"

definition InMemoryLinks_init :: "int \<Rightarrow> InMemoryLinks" where
  "InMemoryLinks_init max_count = \<lparr>links_max_count = max_count, links = []\<rparr>"

text \<open>\<open>list.index(x)\<close> for an element known to be present: the first position holding it.\<close>

fun list_index :: "'a list \<Rightarrow> 'a \<Rightarrow> nat" where
  "list_index [] x = 0"
| "list_index (y # ys) x = (if y = x then 0 else Suc (list_index ys x))"

definition InMemoryLinks_add ::
  "int \<Rightarrow> InMemoryLinks \<Rightarrow> pyval \<Rightarrow> pyval \<Rightarrow> (error + unit) \<times> InMemoryLinks" where
  "InMemoryLinks_add MAX_ID_LEN L source target =
     (case normalize_id MAX_ID_LEN source of
        Inl e \<Rightarrow> (Inl e, L)
      | Inr s \<Rightarrow>
     (case normalize_id MAX_ID_LEN target of
        Inl e \<Rightarrow> (Inl e, L)
      | Inr t \<Rightarrow>
        if links_max_count L = 0 then (Inr (), L)
        else if (s, t) \<in> set (links L) then
          (let i = list_index (links L) (s, t)
           in (Inr (), L\<lparr>links := take i (links L) @ drop (i + 1) (links L) @ [(s, t)]\<rparr>))
        else if int (length (links L)) \<ge> links_max_count L then
          (Inr (), L\<lparr>links := drop 1 (links L) @ [(s, t)]\<rparr>)
        else (Inr (), L\<lparr>links := links L @ [(s, t)]\<rparr>)))"

definition InMemoryLinks_remove ::
  "int \<Rightarrow> InMemoryLinks \<Rightarrow> pyval \<Rightarrow> pyval \<Rightarrow> (error + unit) \<times> InMemoryLinks" where
  "InMemoryLinks_remove MAX_ID_LEN L source target =
     (case normalize_id MAX_ID_LEN source of
        Inl e \<Rightarrow> (Inl e, L)
      | Inr s \<Rightarrow>
     (case normalize_id MAX_ID_LEN target of
        Inl e \<Rightarrow> (Inl e, L)
      | Inr t \<Rightarrow>
        if (s, t) \<in> set (links L) then
          (let i = list_index (links L) (s, t)
           in (Inr (), L\<lparr>links := take i (links L) @ drop (i + 1) (links L)\<rparr>))
        else (Inr (), L)))"

text \<open>
  \<open>delete_source\<close> and \<open>delete_target\<close> evaluate \<open>normalize_id\<close> inside the comprehension,
  once per stored pair: on an empty list it is never evaluated and nothing is raised.
\<close>

definition InMemoryLinks_delete_source ::
  "int \<Rightarrow> InMemoryLinks \<Rightarrow> pyval \<Rightarrow> (error + unit) \<times> InMemoryLinks" where
  "InMemoryLinks_delete_source MAX_ID_LEN L source_to_delete =
     (if links L = [] then (Inr (), L)
      else case normalize_id MAX_ID_LEN source_to_delete of
             Inl e \<Rightarrow> (Inl e, L)
           | Inr s \<Rightarrow> (Inr (), L\<lparr>links := filter (\<lambda>(src, tgt). src \<noteq> s) (links L)\<rparr>))"

definition InMemoryLinks_delete_target ::
  "int \<Rightarrow> InMemoryLinks \<Rightarrow> pyval \<Rightarrow> (error + unit) \<times> InMemoryLinks" where
  "InMemoryLinks_delete_target MAX_ID_LEN L target_to_delete =
     (if links L = [] then (Inr (), L)
      else case normalize_id MAX_ID_LEN target_to_delete of
             Inl e \<Rightarrow> (Inl e, L)
           | Inr t \<Rightarrow> (Inr (), L\<lparr>links := filter (\<lambda>(src, tgt). tgt \<noteq> t) (links L)\<rparr>))"

text \<open>A call sequence on one relation store; a call that raises leaves the store as it is.\<close>

datatype links_op =
    LAdd pyval pyval
  | LRemove pyval pyval
  | LDeleteSource pyval
  | LDeleteTarget pyval

fun links_step :: "int \<Rightarrow> InMemoryLinks \<Rightarrow> links_op \<Rightarrow> InMemoryLinks" where
  "links_step M L (LAdd s t) = snd (InMemoryLinks_add M L s t)"
| "links_step M L (LRemove s t) = snd (InMemoryLinks_remove M L s t)"
| "links_step M L (LDeleteSource s) = snd (InMemoryLinks_delete_source M L s)"
| "links_step M L (LDeleteTarget t) = snd (InMemoryLinks_delete_target M L t)"

definition links_run :: "int \<Rightarrow> InMemoryLinks \<Rightarrow> links_op list \<Rightarrow> InMemoryLinks" where
  "links_run M L ops = foldl (links_step M) L ops"

section \<open>Relation store of capacity zero\<close>

lemma InMemoryLinks_add_zero:
  "links_max_count L = 0 \<Longrightarrow> snd (InMemoryLinks_add M L s t) = L"
  by (simp add: InMemoryLinks_add_def split: sum.splits)

lemma links_step_zero:
  "links_max_count L = 0 \<Longrightarrow> links L = [] \<Longrightarrow> links_step M L x = L"
  by (cases x)
     (simp_all add: InMemoryLinks_add_zero InMemoryLinks_remove_def
        InMemoryLinks_delete_source_def InMemoryLinks_delete_target_def split: sum.splits)

lemma links_run_zero:
  "links_max_count L = 0 \<Longrightarrow> links L = [] \<Longrightarrow> links_run M L ops = L"
  unfolding links_run_def
  by (induction ops arbitrary: L) (simp_all add: links_step_zero)

text \<open>
  Claim C9. A relation store constructed with capacity 0 is never changed by \<open>add\<close>:
  after any sequence of earlier calls the store is still the freshly constructed one, and
  a further \<open>add\<close> of any source and target (valid identifiers or not) leaves it so, with
  an empty list of links.
\<close>

theorem C9_zero_capacity_add_noop:
  "links_run M (InMemoryLinks_init 0) ops = InMemoryLinks_init 0 \<and>
   snd (InMemoryLinks_add M (links_run M (InMemoryLinks_init 0) ops) source target)
     = InMemoryLinks_init 0 \<and>
   links (snd (InMemoryLinks_add M (links_run M (InMemoryLinks_init 0) ops) source target)) = []"
proof -
  have z: "links_max_count (InMemoryLinks_init 0) = 0" "links (InMemoryLinks_init 0) = []"
    by (simp_all add: InMemoryLinks_init_def)
  have r: "links_run M (InMemoryLinks_init 0) ops = InMemoryLinks_init 0"
    by (rule links_run_zero [OF z])
  show ?thesis
    by (simp add: r InMemoryLinks_add_zero [OF z(1)] z(2))
qed

section \<open>InMemoryModel\<close>

text \<open>
  A stored record is a Python dict from field names to values. \<open>add\<close> stores the very
  dict it is given and then sets its \<open>id\<close> field, so the stored record carries the id.
\<close>

type_synonym obj = "(string \<times> pyval) list"

record InMemoryModel =
  max_count :: int
  objects :: "(string \<times> obj) list"
  last_accessed_ids :: "string list"
  current_id_counter :: int

definition InMemoryModel_init :: "int \<Rightarrow> error + InMemoryModel" where
  "InMemoryModel_init n =
     (if n \<le> 0 then Inl ValueError
      else Inr \<lparr>max_count = n, objects = [], last_accessed_ids = [], current_id_counter = 1\<rparr>)"

definition InMemoryModel_add ::
  "int \<Rightarrow> InMemoryModel \<Rightarrow> obj \<Rightarrow> (error + obj) \<times> InMemoryModel" where
  "InMemoryModel_add MAX_ID_LEN m ob =
     (let new_id = str (current_id_counter m) in
      if int (length new_id) > MAX_ID_LEN then (Inl ValueError, m)
      else
        let ob' = AList.update ''id'' (PyStr new_id) ob;
            m1 = m\<lparr>objects := AList.update new_id ob' (objects m),
                   current_id_counter := current_id_counter m + 1\<rparr>
        in if int (length (objects m1)) > max_count m1 then
             (case last_accessed_ids m1 of
                [] \<Rightarrow> (Inl IndexError, m1)
              | evicted_id # rest \<Rightarrow>
                  if evicted_id \<notin> fst ` set (objects m1) then (Inl KeyError, m1)
                  else (Inr ob', m1\<lparr>objects := AList.delete evicted_id (objects m1),
                                     last_accessed_ids := rest @ [new_id]\<rparr>))
           else (Inr ob', m1\<lparr>last_accessed_ids := last_accessed_ids m1 @ [new_id]\<rparr>))"

definition InMemoryModel_get ::
  "int \<Rightarrow> InMemoryModel \<Rightarrow> pyval \<Rightarrow> (error + obj option) \<times> InMemoryModel" where
  "InMemoryModel_get MAX_ID_LEN m v =
     (case normalize_id MAX_ID_LEN v of
        Inl e \<Rightarrow> (Inl e, m)
      | Inr i \<Rightarrow>
          (case map_of (objects m) i of
             None \<Rightarrow> (Inr None, m)
           | Some ob \<Rightarrow>
               (Inr (Some ob),
                m\<lparr>last_accessed_ids := filter (\<lambda>e. e \<noteq> i) (last_accessed_ids m) @ [i]\<rparr>)))"

definition InMemoryModel_delete ::
  "int \<Rightarrow> InMemoryModel \<Rightarrow> pyval \<Rightarrow> (error + bool) \<times> InMemoryModel" where
  "InMemoryModel_delete MAX_ID_LEN m v =
     (case normalize_id MAX_ID_LEN v of
        Inl e \<Rightarrow> (Inl e, m)
      | Inr i \<Rightarrow>
          if i \<in> fst ` set (objects m) then
            (Inr True, m\<lparr>objects := AList.delete i (objects m),
                         last_accessed_ids := filter (\<lambda>cid. cid \<noteq> i) (last_accessed_ids m)\<rparr>)
          else (Inr False, m))"


section \<open>Decimal rendering of the id counter\<close>

lemma digit_chars_distinct: "distinct ''0123456789''" by simp

lemma digit_char_inj: "a < 10 \<Longrightarrow> b < 10 \<Longrightarrow> digit_char a = digit_char b \<Longrightarrow> a = b"
  unfolding digit_char_def using digit_chars_distinct
  by (simp add: nth_eq_iff_index_eq)

lemma digit_char_not_minus: "a < 10 \<Longrightarrow> digit_char a \<noteq> CHR ''-''"
proof -
  assume "a < 10"
  then have "digit_char a \<in> set ''0123456789''"
    unfolding digit_char_def by (intro nth_mem) simp
  then show ?thesis by auto
qed

lemma str_nat_nonempty: "str_nat n \<noteq> []"
  by (subst str_nat.simps) simp

lemma str_nat_hd_not_minus: "hd (str_nat n) \<noteq> CHR ''-''"
proof (induction n rule: str_nat.induct)
  case (1 n)
  show ?case
  proof (cases "n < 10")
    case True
    then show ?thesis by (subst str_nat.simps) (simp add: digit_char_not_minus)
  next
    case False
    with 1 show ?thesis
      by (subst str_nat.simps) (simp add: str_nat_nonempty)
  qed
qed

lemma str_nat_inj: "str_nat a = str_nat b \<Longrightarrow> a = b"
proof (induction a arbitrary: b rule: str_nat.induct)
  case (1 a)
  show ?case
  proof (cases "a < 10")
    case a: True
    show ?thesis
    proof (cases "b < 10")
      case True
      with a "1.prems" show ?thesis
        by (simp add: str_nat.simps [of a] str_nat.simps [of b] digit_char_inj)
    next
      case False
      with a "1.prems" str_nat_nonempty [of "b div 10"] show ?thesis
        by (auto simp add: str_nat.simps [of a] str_nat.simps [of b])
    qed
  next
    case a: False
    show ?thesis
    proof (cases "b < 10")
      case True
      with a "1.prems" show ?thesis
        by (simp add: str_nat.simps [of a] str_nat.simps [of b] str_nat_nonempty)
    next
      case False
      with a "1.prems" have e: "str_nat (a div 10) = str_nat (b div 10)"
        and d: "digit_char (a mod 10) = digit_char (b mod 10)"
        by (simp_all add: str_nat.simps [of a] str_nat.simps [of b])
      from "1.IH" [OF a e] have "a div 10 = b div 10" .
      moreover from d have "a mod 10 = b mod 10"
        by (intro digit_char_inj) simp_all
      ultimately show ?thesis
        by (metis div_mult_mod_eq)
    qed
  qed
qed

lemma str_inj: "str i = str j \<Longrightarrow> i = j"
proof -
  assume e: "str i = str j"
  have neg: "CHR ''-'' # xs \<noteq> str_nat n" for xs n
    using str_nat_hd_not_minus [of n] by (metis list.sel(1))
  show ?thesis
  proof (cases "i < 0")
    case i: True
    show ?thesis
    proof (cases "j < 0")
      case True
      with i e have "nat (- i) = nat (- j)" by (auto simp: str_def dest: str_nat_inj)
      with i True show ?thesis by simp
    next
      case False
      with i e neg show ?thesis by (auto simp: str_def)
    qed
  next
    case i: False
    show ?thesis
    proof (cases "j < 0")
      case True
      with i e neg [of _ "nat i"] show ?thesis by (auto simp: str_def)
    next
      case False
      with i e have "nat i = nat j" by (auto simp: str_def dest: str_nat_inj)
      with i False show ?thesis by simp
    qed
  qed
qed

lemma str_nat_length_mono: "a \<le> b \<Longrightarrow> length (str_nat a) \<le> length (str_nat b)"
proof (induction a arbitrary: b rule: str_nat.induct)
  case (1 a)
  show ?case
  proof (cases "a < 10")
    case True
    then have "length (str_nat a) = 1" by (simp add: str_nat.simps [of a])
    moreover have "1 \<le> length (str_nat b)"
      using str_nat_nonempty [of b] by (cases "str_nat b") simp_all
    ultimately show ?thesis by simp
  next
    case False
    with "1.prems" have b: "\<not> b < 10" by simp
    have "a div 10 \<le> b div 10" using "1.prems" by (rule div_le_mono)
    from "1.IH" [OF False this] False b show ?thesis
      by (simp add: str_nat.simps [of a] str_nat.simps [of b])
  qed
qed

lemma str_length_mono: "0 \<le> i \<Longrightarrow> i \<le> j \<Longrightarrow> length (str i) \<le> length (str j)"
  by (simp add: str_def str_nat_length_mono)


section \<open>Call sequences on an object store\<close>

datatype model_op = MAdd obj | MGet pyval | MDelete pyval

fun model_step :: "int \<Rightarrow> InMemoryModel \<Rightarrow> model_op \<Rightarrow> InMemoryModel" where
  "model_step M m (MAdd ob) = snd (InMemoryModel_add M m ob)"
| "model_step M m (MGet v) = snd (InMemoryModel_get M m v)"
| "model_step M m (MDelete v) = snd (InMemoryModel_delete M m v)"

definition model_run :: "int \<Rightarrow> InMemoryModel \<Rightarrow> model_op list \<Rightarrow> InMemoryModel" where
  "model_run M m ops = foldl (model_step M) m ops"

fun model_adds :: "int \<Rightarrow> InMemoryModel \<Rightarrow> obj list \<Rightarrow> (error + obj) list \<times> InMemoryModel" where
  "model_adds M m [] = ([], m)"
| "model_adds M m (ob # obs) =
     (case InMemoryModel_add M m ob of
        (r, m1) \<Rightarrow> (case model_adds M m1 obs of (rs, m2) \<Rightarrow> (r # rs, m2)))"

lemma model_adds_Cons:
  "model_adds M m (ob # obs) =
     (fst (InMemoryModel_add M m ob) # fst (model_adds M (snd (InMemoryModel_add M m ob)) obs),
      snd (model_adds M (snd (InMemoryModel_add M m ob)) obs))"
  by (simp split: prod.splits)

declare model_adds.simps(2) [simp del]

definition model_inv :: "InMemoryModel \<Rightarrow> bool" where
  "model_inv m \<longleftrightarrow>
     distinct (map fst (objects m)) \<and>
     distinct (last_accessed_ids m) \<and>
     set (last_accessed_ids m) = fst ` set (objects m) \<and>
     (\<forall>k \<in> fst ` set (objects m). \<exists>i. k = str i \<and> i < current_id_counter m) \<and>
     int (length (objects m)) \<le> max_count m \<and> 0 < max_count m"

lemma length_delete_distinct:
  "distinct (map fst al) \<Longrightarrow> k \<in> fst ` set al \<Longrightarrow> Suc (length (AList.delete k al)) = length al"
  by (induction al) (auto simp: image_iff)

lemma length_update_fresh:
  "k \<notin> fst ` set al \<Longrightarrow> length (AList.update k v al) = Suc (length al)"
  by (induction al) auto

lemma keys_update_fresh:
  "k \<notin> fst ` set al \<Longrightarrow> map fst (AList.update k v al) = map fst al @ [k]"
  by (induction al) auto

lemma model_inv_fresh_key:
  assumes "model_inv m"
  shows "str (current_id_counter m) \<notin> fst ` set (objects m)"
proof
  assume "str (current_id_counter m) \<in> fst ` set (objects m)"
  with assms obtain i where "str (current_id_counter m) = str i" "i < current_id_counter m"
    unfolding model_inv_def by blast
  then show False using str_inj by blast
qed

lemma model_inv_add:
  assumes inv: "model_inv m"
  shows "model_inv (snd (InMemoryModel_add M m ob))"
proof (cases "int (length (str (current_id_counter m))) > M")
  case True
  then show ?thesis using inv by (simp add: InMemoryModel_add_def Let_def)
next
  case fits: False
  let ?k = "str (current_id_counter m)"
  let ?ob = "AList.update ''id'' (PyStr ?k) ob"
  let ?objs = "AList.update ?k ?ob (objects m)"
  have fresh: "?k \<notin> fst ` set (objects m)" by (rule model_inv_fresh_key [OF inv])
  have keys: "map fst ?objs = map fst (objects m) @ [?k]" by (rule keys_update_fresh [OF fresh])
  have len: "length ?objs = Suc (length (objects m))" by (rule length_update_fresh [OF fresh])
  have dist: "distinct (map fst ?objs)" using inv fresh by (simp add: keys model_inv_def)
  have kset: "fst ` set ?objs = insert ?k (fst ` set (objects m))"
    using keys by (metis (no_types, lifting) Un_insert_right list.set(1,2) set_append set_map sup_bot.right_neutral)
  have bound: "\<forall>k \<in> fst ` set ?objs. \<exists>i. k = str i \<and> i < current_id_counter m + 1"
  proof
    fix k assume "k \<in> fst ` set ?objs"
    then consider "k = ?k" | "k \<in> fst ` set (objects m)" using kset by auto
    then show "\<exists>i. k = str i \<and> i < current_id_counter m + 1"
    proof cases
      case 1 then show ?thesis by (intro exI [of _ "current_id_counter m"]) simp
    next
      case 2
      with inv obtain i where "k = str i" "i < current_id_counter m"
        unfolding model_inv_def by blast
      then show ?thesis by (intro exI [of _ i]) simp
    qed
  qed
  show ?thesis
  proof (cases "int (length ?objs) > max_count m")
    case False
    have "?k \<notin> set (last_accessed_ids m)" using inv fresh by (simp add: model_inv_def)
    with False fits inv dist kset bound show ?thesis
      by (simp add: InMemoryModel_add_def Let_def model_inv_def)
  next
    case over: True
    have ne: "objects m \<noteq> []"
    proof
      assume "objects m = []"
      with over len inv show False by (simp add: model_inv_def)
    qed
    then have "last_accessed_ids m \<noteq> []" using inv
      by (metis model_inv_def image_is_empty set_empty)
    then obtain e rest where la: "last_accessed_ids m = e # rest" by (cases "last_accessed_ids m") auto
    have e_in: "e \<in> fst ` set (objects m)" using inv la unfolding model_inv_def
      by (metis list.set_intros(1))
    then have e_in': "e \<in> fst ` set ?objs" using kset by simp
    have e_ne: "e \<noteq> ?k" using e_in fresh by blast
    have rest: "distinct rest" "e \<notin> set rest" "set rest = fst ` set (objects m) - {e}"
      using inv la unfolding model_inv_def by auto
    have len': "Suc (length (AList.delete e ?objs)) = length ?objs"
      by (rule length_delete_distinct [OF dist e_in'])
    have dk: "fst ` set (AList.delete e ?objs) = insert ?k (fst ` set (objects m)) - {e}"
      using kset by (metis (no_types, lifting) delete_keys set_map set_removeAll)
    have b': "\<forall>k \<in> fst ` set (AList.delete e ?objs). \<exists>i. k = str i \<and> i < current_id_counter m + 1"
    proof
      fix k assume "k \<in> fst ` set (AList.delete e ?objs)"
      then have "k \<in> fst ` set ?objs" using dom_delete_subset [of e ?objs] by (rule rev_subsetD)
      with bound show "\<exists>i. k = str i \<and> i < current_id_counter m + 1" by (rule bspec)
    qed
    have s': "set (rest @ [?k]) = fst ` set (AList.delete e ?objs)"
      unfolding dk using rest(3) e_ne by auto
    have d': "distinct (rest @ [?k])"
      using rest(1,3) fresh by simp
    have l': "int (length (AList.delete e ?objs)) \<le> max_count m"
      using len len' inv by (simp add: model_inv_def)
    have "model_inv (m\<lparr>current_id_counter := current_id_counter m + 1,
                       objects := AList.delete e ?objs,
                       last_accessed_ids := rest @ [?k]\<rparr>)"
    proof -
      have "distinct (map fst (AList.delete e ?objs))" using dist by (rule distinct_delete)
      moreover have "0 < max_count m" using inv by (simp add: model_inv_def)
      ultimately show ?thesis
        unfolding model_inv_def using b' s' d' l' by simp
    qed
    with over fits la e_in' show ?thesis
      by (simp add: InMemoryModel_add_def Let_def)
  qed
qed

lemma model_inv_get:
  assumes inv: "model_inv m"
  shows "model_inv (snd (InMemoryModel_get M m v))"
proof (cases "normalize_id M v")
  case (Inl e)
  then show ?thesis using inv by (simp add: InMemoryModel_get_def)
next
  case (Inr i)
  show ?thesis
  proof (cases "map_of (objects m) i")
    case None
    with Inr inv show ?thesis by (simp add: InMemoryModel_get_def)
  next
    case (Some ob)
    then have "i \<in> fst ` set (objects m)" by (metis map_of_eq_None_iff option.distinct(1))
    then have "insert i (set (last_accessed_ids m) - {i}) = set (last_accessed_ids m)"
      using inv by (auto simp: model_inv_def)
    moreover have "{x \<in> set (last_accessed_ids m). x \<noteq> i} = set (last_accessed_ids m) - {i}" by auto
    ultimately show ?thesis using Inr Some inv
      by (simp add: InMemoryModel_get_def model_inv_def)
  qed
qed

lemma model_inv_delete:
  assumes inv: "model_inv m"
  shows "model_inv (snd (InMemoryModel_delete M m v))"
proof (cases "normalize_id M v")
  case (Inl e)
  then show ?thesis using inv by (simp add: InMemoryModel_delete_def)
next
  case (Inr i)
  show ?thesis
  proof (cases "i \<in> fst ` set (objects m)")
    case False
    with Inr inv show ?thesis by (simp add: InMemoryModel_delete_def)
  next
    case True
    have dk: "fst ` set (AList.delete i (objects m)) = fst ` set (objects m) - {i}"
      by (metis (no_types, lifting) delete_keys set_map set_removeAll)
    have "{x \<in> set (last_accessed_ids m). x \<noteq> i} = set (last_accessed_ids m) - {i}" by auto
    moreover have "length (AList.delete i (objects m)) \<le> length (objects m)"
      by (rule length_delete_le)
    ultimately show ?thesis using Inr True inv dk
      by (auto simp: InMemoryModel_delete_def model_inv_def distinct_delete)
  qed
qed

lemma model_inv_init: "InMemoryModel_init n = Inr m \<Longrightarrow> model_inv m"
  by (auto simp: InMemoryModel_init_def model_inv_def split: if_splits)

lemma model_inv_step: "model_inv m \<Longrightarrow> model_inv (model_step M m x)"
  by (cases x) (simp_all add: model_inv_add model_inv_get model_inv_delete)

lemma model_inv_run: "model_inv m \<Longrightarrow> model_inv (model_run M m ops)"
  unfolding model_run_def
  by (induction ops arbitrary: m) (simp_all add: model_inv_step)


lemma max_count_add [simp]: "max_count (snd (InMemoryModel_add M m ob)) = max_count m"
  by (simp add: InMemoryModel_add_def Let_def split: list.splits)

lemma max_count_get [simp]: "max_count (snd (InMemoryModel_get M m v)) = max_count m"
  by (simp add: InMemoryModel_get_def split: sum.splits option.splits)

lemma max_count_delete [simp]: "max_count (snd (InMemoryModel_delete M m v)) = max_count m"
  by (simp add: InMemoryModel_delete_def split: sum.splits)

lemma max_count_step [simp]: "max_count (model_step M m x) = max_count m"
  by (cases x) simp_all

lemma max_count_run [simp]: "max_count (model_run M m ops) = max_count m"
  unfolding model_run_def
  by (induction ops arbitrary: m) simp_all

text \<open>What one successful \<open>add\<close> does to a store whose two id lists agree.\<close>

definition ids_of :: "nat \<Rightarrow> nat \<Rightarrow> string list" where
  "ids_of a c = map (\<lambda>i. str (int i)) [a ..< c]"

lemma ids_of_distinct: "distinct (ids_of a c)"
  unfolding ids_of_def
  by (simp add: distinct_map inj_on_def) (metis str_inj of_nat_eq_iff)

lemma ids_of_fresh: "str (int c) \<notin> set (ids_of a c)"
proof
  assume "str (int c) \<in> set (ids_of a c)"
  then obtain i where "i < c" "str (int c) = str (int i)" by (auto simp: ids_of_def)
  then show False using str_inj [of "int c" "int i"] by simp
qed

lemma ids_of_snoc: "a \<le> c \<Longrightarrow> ids_of a c @ [str (int c)] = ids_of a (Suc c)"
  by (simp add: ids_of_def)

lemma ids_of_tl: "a < c \<Longrightarrow> ids_of a c = str (int a) # ids_of (Suc a) c"
  by (simp add: ids_of_def upt_conv_Cons)

lemma delete_hd_keys:
  "distinct (map fst al) \<Longrightarrow> map fst al = e # ks \<Longrightarrow> map fst (AList.delete e al) = ks"
  by (cases al) (auto simp: AList.delete_keys)

definition holds_ids :: "InMemoryModel \<Rightarrow> nat \<Rightarrow> nat \<Rightarrow> bool" where
  "holds_ids m a c \<longleftrightarrow>
     map fst (objects m) = ids_of a c \<and> last_accessed_ids m = ids_of a c \<and>
     current_id_counter m = int c \<and> a \<le> c \<and> int (c - a) \<le> max_count m \<and> 0 < max_count m"

lemma holds_ids_add:
  assumes h: "holds_ids m a c" and fits: "int (length (str (int c))) \<le> M"
  shows "fst (InMemoryModel_add M m ob) = Inr (AList.update ''id'' (PyStr (str (int c))) ob)"
    and "holds_ids (snd (InMemoryModel_add M m ob)) (if int (c - a) = max_count m then Suc a else a) (Suc c)"
proof -
  let ?k = "str (int c)"
  let ?ob = "AList.update ''id'' (PyStr ?k) ob"
  let ?objs = "AList.update ?k ?ob (objects m)"
  from h have keys0: "map fst (objects m) = ids_of a c" and la: "last_accessed_ids m = ids_of a c"
    and cnt: "current_id_counter m = int c" and ac: "a \<le> c"
    and cap: "int (c - a) \<le> max_count m" and pos: "0 < max_count m"
    unfolding holds_ids_def by blast+
  have fresh: "?k \<notin> fst ` set (objects m)"
    using ids_of_fresh [of c a] keys0 by (metis set_map)
  have keys: "map fst ?objs = ids_of a (Suc c)"
    using keys_update_fresh [OF fresh] keys0 ids_of_snoc [OF ac] by simp
  have len0: "length (objects m) = c - a"
    using keys0 by (metis length_map ids_of_def length_upt)
  have len: "length ?objs = Suc (c - a)"
    using length_update_fresh [OF fresh] len0 by simp
  have dist: "distinct (map fst ?objs)" unfolding keys by (rule ids_of_distinct)
  show "fst (InMemoryModel_add M m ob) = Inr ?ob"
    and "holds_ids (snd (InMemoryModel_add M m ob)) (if int (c - a) = max_count m then Suc a else a) (Suc c)"
  proof (atomize (full), cases "int (c - a) = max_count m")
    case full: True
    then have alt: "a < c" using pos by (cases "a < c") simp_all
    have la': "last_accessed_ids m = str (int a) # ids_of (Suc a) c"
      using la ids_of_tl [OF alt] by simp
    have keys': "map fst ?objs = str (int a) # ids_of (Suc a) (Suc c)"
      using keys ids_of_tl [of a "Suc c"] alt by simp
    have e_in: "str (int a) \<in> fst ` set ?objs"
      using keys' by (metis list.set_intros(1) set_map)
    have dk: "map fst (AList.delete (str (int a)) ?objs) = ids_of (Suc a) (Suc c)"
      by (rule delete_hd_keys [OF dist keys'])
    have sn: "ids_of (Suc a) c @ [?k] = ids_of (Suc a) (Suc c)"
      using alt by (intro ids_of_snoc) simp
    have over: "int (length ?objs) > max_count m" using len full by simp
    have cap': "int (Suc c - Suc a) \<le> max_count m" using cap by simp
    show "fst (InMemoryModel_add M m ob) = Inr ?ob \<and>
      holds_ids (snd (InMemoryModel_add M m ob)) (if int (c - a) = max_count m then Suc a else a) (Suc c)"
      using fits over la' e_in dk sn cap' pos alt full cnt
      by (simp add: InMemoryModel_add_def Let_def holds_ids_def)
  next
    case notfull: False
    have under: "\<not> int (length ?objs) > max_count m" using len notfull cap by simp
    have sn: "ids_of a c @ [?k] = ids_of a (Suc c)" by (rule ids_of_snoc [OF ac])
    have cap': "int (Suc c - a) \<le> max_count m" using cap notfull ac by simp
    show "fst (InMemoryModel_add M m ob) = Inr ?ob \<and>
      holds_ids (snd (InMemoryModel_add M m ob)) (if int (c - a) = max_count m then Suc a else a) (Suc c)"
      using fits under la keys sn cap' pos ac notfull cnt
      by (simp add: InMemoryModel_add_def Let_def holds_ids_def)
  qed
qed

lemma holds_ids_adds:
  assumes "holds_ids m a c" and "obs \<noteq> [] \<longrightarrow> int (length (str (int (c + length obs - 1)))) \<le> M"
  shows "holds_ids (snd (model_adds M m obs)) (max a (c + length obs - nat (max_count m))) (c + length obs) \<and>
         (\<forall>k < length obs. fst (model_adds M m obs) ! k
             = Inr (AList.update ''id'' (PyStr (str (int (c + k)))) (obs ! k)))"
  using assms
proof (induction obs arbitrary: m a c)
  case Nil
  then have "int (c - a) \<le> max_count m" "a \<le> c" unfolding holds_ids_def by blast+
  then have "max a (c - nat (max_count m)) = a" by linarith
  with Nil show ?case by simp
next
  case (Cons ob obs)
  let ?a1 = "if int (c - a) = max_count m then Suc a else a"
  let ?m1 = "snd (InMemoryModel_add M m ob)"
  have "length (str (int c)) \<le> length (str (int (c + length (ob # obs) - 1)))"
    by (intro str_length_mono) simp_all
  with Cons.prems(2) have fits: "int (length (str (int c))) \<le> M" by simp
  note r = holds_ids_add [OF Cons.prems(1) fits, of ob]
  have fits': "obs \<noteq> [] \<longrightarrow> int (length (str (int (Suc c + length obs - 1)))) \<le> M"
    using Cons.prems(2) by simp
  note ih = Cons.IH [OF r(2) fits']
  have mc: "max_count ?m1 = max_count m" by simp
  from Cons.prems(1) have cap: "int (c - a) \<le> max_count m" "a \<le> c" "0 < max_count m"
    unfolding holds_ids_def by blast+
  have mx: "max ?a1 (Suc c + length obs - nat (max_count m))
          = max a (c + length (ob # obs) - nat (max_count m))"
    using cap by (auto simp: max_def)
  note split = model_adds_Cons [of M m ob obs]
  have h: "holds_ids (snd (model_adds M m (ob # obs)))
            (max a (c + length (ob # obs) - nat (max_count m))) (c + length (ob # obs))"
    using ih mx mc by (simp add: split)
  have n: "fst (model_adds M m (ob # obs)) ! k
             = Inr (AList.update ''id'' (PyStr (str (int (c + k)))) ((ob # obs) ! k))"
    if "k < length (ob # obs)" for k
  proof (cases k)
    case 0
    then show ?thesis using r(1) by (simp add: split)
  next
    case (Suc j)
    with that ih show ?thesis by (simp add: split)
  qed
  from h n show ?case by blast
qed

lemma holds_ids_init: "InMemoryModel_init n = Inr m \<Longrightarrow> holds_ids m 1 1 \<and> max_count m = n"
  by (auto simp: InMemoryModel_init_def holds_ids_def ids_of_def split: if_splits)

text \<open>
  Claim C6. On a store constructed with capacity \<open>N\<close>: after any sequence of \<open>add\<close>,
  \<open>get\<close> and \<open>delete\<close> calls the store holds at most \<open>N\<close> objects; in a sequence of
  \<open>add\<close> calls the call number \<open>k + 1\<close> returns its record with the id \<open>str (k + 1)\<close>
  (whenever that rendering is within \<open>MAX_ID_LEN\<close>), and different counter values render
  to different ids, so no id is handed out twice, evicted or not; after \<open>N + 1\<close> adds
  the first id is gone and both the keys and the access order are the ids
  \<open>2 .. N + 1\<close>, oldest first.
\<close>

theorem C6_object_store:
  assumes init: "InMemoryModel_init N = Inr m0"
  shows "int (length (objects (model_run M m0 ops))) \<le> N \<and>
    (\<forall>k. k < length obs \<and> int (length (str (int k + 1))) \<le> M \<longrightarrow>
           fst (model_adds M m0 obs) ! k
             = Inr (AList.update ''id'' (PyStr (str (int k + 1))) (obs ! k))) \<and>
    (\<forall>i j. str i = str j \<longrightarrow> i = j) \<and>
    (length obs = nat N + 1 \<and> int (length (str (N + 1))) \<le> M \<longrightarrow>
           map fst (objects (snd (model_adds M m0 obs))) = map (\<lambda>i. str (int i)) [2 ..< nat N + 2] \<and>
           last_accessed_ids (snd (model_adds M m0 obs)) = map (\<lambda>i. str (int i)) [2 ..< nat N + 2])"
proof -
  from holds_ids_init [OF init] have h0: "holds_ids m0 1 1" and mc: "max_count m0 = N" by simp_all
  have pos: "0 < N" using init by (simp add: InMemoryModel_init_def split: if_splits)
  have p1: "int (length (objects (model_run M m0 ops))) \<le> N"
    using model_inv_run [OF model_inv_init [OF init], of M ops] mc
    by (simp add: model_inv_def)
  have p2: "fst (model_adds M m0 obs) ! k
             = Inr (AList.update ''id'' (PyStr (str (int k + 1))) (obs ! k))"
    if k: "k < length obs" and fits: "int (length (str (int k + 1))) \<le> M" for k
  proof -
    have tk: "take (Suc k) obs \<noteq> []" "length (take (Suc k) obs) = Suc k" using k by auto
    have "int (length (str (int (1 + length (take (Suc k) obs) - 1)))) \<le> M"
      using fits tk(2) by (simp add: add.commute)
    from holds_ids_adds [OF h0, of "take (Suc k) obs" M] this tk
    have a: "fst (model_adds M m0 (take (Suc k) obs)) ! k
            = Inr (AList.update ''id'' (PyStr (str (int (1 + k)))) (take (Suc k) obs ! k))"
      by simp
    have pre: "fst (model_adds M m xs) ! k = fst (model_adds M m (take (Suc k) xs)) ! k"
      if "k < length xs" for m xs
      using that
    proof (induction xs arbitrary: m k)
      case Nil then show ?case by simp
    next
      case (Cons x xs)
      show ?case
      proof (cases k)
        case 0 then show ?thesis by (simp add: model_adds_Cons)
      next
        case (Suc j)
        with Cons.prems have "j < length xs" by simp
        from Cons.IH [OF this] Suc show ?thesis by (simp add: model_adds_Cons)
      qed
    qed
    from pre [OF k, of m0] a show ?thesis by (simp add: add.commute)
  qed
  have p3: "i = j" if "str i = str j" for i j using that by (rule str_inj)
  have p4: "map fst (objects (snd (model_adds M m0 obs))) = map (\<lambda>i. str (int i)) [2 ..< nat N + 2] \<and>
           last_accessed_ids (snd (model_adds M m0 obs)) = map (\<lambda>i. str (int i)) [2 ..< nat N + 2]"
    if len: "length obs = nat N + 1" and fits: "int (length (str (N + 1))) \<le> M"
  proof -
    have "int (1 + length obs - 1) = N + 1" using len pos by simp
    with fits have f: "obs \<noteq> [] \<longrightarrow> int (length (str (int (1 + length obs - 1)))) \<le> M" by simp
    have e2: "1 + length obs = nat N + 2" using len by simp
    from holds_ids_adds [OF h0 f]
    have "holds_ids (snd (model_adds M m0 obs)) (max 1 (1 + length obs - nat (max_count m0))) (1 + length obs)"
      by (rule conjunct1)
    then have "holds_ids (snd (model_adds M m0 obs)) (max 1 (nat N + 2 - nat N)) (nat N + 2)"
      by (simp only: e2 mc)
    moreover have "max 1 (nat N + 2 - nat N) = (2::nat)" by simp
    ultimately have "holds_ids (snd (model_adds M m0 obs)) 2 (nat N + 2)"
      by (simp only:)
    then show ?thesis by (simp add: holds_ids_def ids_of_def)
  qed
  from p1 p2 p3 p4 show ?thesis by blast
qed

theorem C6_object_store_witness:
  "InMemoryModel_init 3 = Inr \<lparr>max_count = 3, objects = [], last_accessed_ids = [], current_id_counter = 1\<rparr> \<and>
   last_accessed_ids (snd (model_adds 64
      \<lparr>max_count = 3, objects = [], last_accessed_ids = [], current_id_counter = 1\<rparr>
      [[], [], [], []])) = [''2'', ''3'', ''4'']"
proof -
  have i: "InMemoryModel_init 3 = Inr \<lparr>max_count = 3, objects = [], last_accessed_ids = [], current_id_counter = 1\<rparr>"
    by (simp add: InMemoryModel_init_def)
  have s4: "str (3 + 1) = ''4''" by (simp add: str_def str_nat.simps digit_char_def)
  have u: "[2 ..< nat 3 + 2] = [2, 3, 4]" by (simp add: upt_rec)
  have ss: "map (\<lambda>i. str (int i)) [2, 3, 4] = [''2'', ''3'', ''4'']"
    by (simp add: str_def str_nat.simps digit_char_def)
  from C6_object_store [OF i, of 64 "[]" "[[], [], [], []]"] s4 u ss i show ?thesis by simp
qed


section \<open>The session container\<close>

text \<open>
  A heap entry is the Python list \<open>[priority, obj_id, data, index, client_ip]\<close>. The payload
  type is a parameter: the container never looks inside a payload except in the credential
  search. Payloads are values here; two entries share a payload when they hold equal ones.
\<close>

record 'd item =
  priority :: int
  obj_id :: string
  data :: 'd
  index :: nat
  client_ip :: "string option"

text \<open>
  The fields of \<open>_StorageContainer\<close>. In non-isolated mode the source keeps the single
  shared storage in slot 0 of \<open>heap\<close>, where it is not a heap entry; that slot is the field
  \<open>shared_storage\<close> here, so that \<open>heap\<close> holds entries only. The source's \<open>heap\<close> is
  empty when \<open>heap\<close> is \<open>[]\<close> and \<open>shared_storage\<close> is \<open>None\<close>; with the slot filled, its
  element 0 is a storage, and code that reads element 0 as an entry fails on it.
\<close>

record 'd container =
  DISABLE_ISOLATION_MODE :: bool
  MAX_SESSIONS :: int
  heap :: "'d item list"
  index_map :: "(string \<times> nat) list"
  jwt_to_session :: "(string \<times> string) list"
  jwt_to_session_order :: "string list"
  ip_to_sessions :: "(string \<times> string list) list"
  shared_storage :: "'d option"

text \<open>\<open>__init__\<close>; the module constant \<open>MAX_SESSIONS_PER_IP\<close> is a parameter throughout.\<close>

definition new_container :: "bool \<Rightarrow> int \<Rightarrow> 'd container" where
  "new_container disable_isolation_mode max_sessions =
     \<lparr>DISABLE_ISOLATION_MODE = disable_isolation_mode, MAX_SESSIONS = max_sessions,
      heap = [], index_map = [], jwt_to_session = [], jwt_to_session_order = [],
      ip_to_sessions = [], shared_storage = None\<rparr>"

definition StorageContainer_init :: "int \<Rightarrow> bool \<Rightarrow> int \<Rightarrow> error + 'd container" where
  "StorageContainer_init MAX_SESSIONS_PER_IP disable_isolation_mode max_sessions =
     (if MAX_SESSIONS_PER_IP < 1 then Inl ValueError
      else Inr (new_container disable_isolation_mode max_sessions))"

subsection \<open>Heap and index map\<close>

text \<open>
  \<open>_swap\<close>, \<open>_sift_up\<close> and \<open>_sift_down\<close> are only called with positions inside the heap
  (their callers read \<open>heap[index]\<close> or compare with \<open>len(heap)\<close> first), so they never raise.
\<close>

definition priv_swap :: "'d container \<Rightarrow> nat \<Rightarrow> nat \<Rightarrow> 'd container" where
  "priv_swap c i j =
     (let hi = heap c ! i; hj = heap c ! j
      in c\<lparr>index_map := AList.update (obj_id hj) i (AList.update (obj_id hi) j (index_map c)),
           heap := (heap c)[i := hj\<lparr>index := i\<rparr>, j := hi\<lparr>index := j\<rparr>]\<rparr>)"

function priv_sift_up :: "'d container \<Rightarrow> nat \<Rightarrow> 'd container" where
  "priv_sift_up c i =
     (if i > 0 then
        (let parent_index = (i - 1) div 2
         in if priority (heap c ! i) \<ge> priority (heap c ! parent_index) then c
            else priv_sift_up (priv_swap c i parent_index) parent_index)
      else c)"
  by pat_completeness auto
termination
  by (relation "measure snd") auto

declare priv_sift_up.simps [simp del]

definition smallest_of :: "'d item list \<Rightarrow> nat \<Rightarrow> nat" where
  "smallest_of h i =
     (let smallest = i; left_child = 2 * i + 1; right_child = 2 * i + 2;
          smallest = (if left_child < length h \<and> priority (h ! left_child) < priority (h ! smallest)
                      then left_child else smallest);
          smallest = (if right_child < length h \<and> priority (h ! right_child) < priority (h ! smallest)
                      then right_child else smallest)
      in smallest)"

lemma length_heap_swap [simp]: "length (heap (priv_swap c i j)) = length (heap c)"
  by (simp add: priv_swap_def Let_def)

lemma smallest_of_cases:
  "smallest_of h i = i \<or>
   (smallest_of h i = 2 * i + 1 \<and> 2 * i + 1 < length h) \<or>
   (smallest_of h i = 2 * i + 2 \<and> 2 * i + 2 < length h)"
  by (simp add: smallest_of_def Let_def)

function priv_sift_down :: "'d container \<Rightarrow> nat \<Rightarrow> 'd container" where
  "priv_sift_down c i =
     (let smallest = smallest_of (heap c) i
      in if smallest = i then c
         else priv_sift_down (priv_swap c i smallest) smallest)"
  by pat_completeness auto
termination
proof (relation "measure (\<lambda>(c, i). length (heap c) - i)")
  show "wf (measure (\<lambda>(c, i). length (heap c) - i))" by simp
next
  fix c :: "'d container" and i x
  assume "x = smallest_of (heap c) i" "x \<noteq> i"
  with smallest_of_cases [of "heap c" i]
  show "((priv_swap c i x, x), c, i) \<in> measure (\<lambda>(c, i). length (heap c) - i)"
    by auto
qed

declare priv_sift_down.simps [simp del]

definition priv_push :: "'d container \<Rightarrow> int \<Rightarrow> string \<Rightarrow> 'd \<Rightarrow> string option \<Rightarrow> 'd container" where
  "priv_push c prio oid d ip =
     (let i = length (heap c);
          it = \<lparr>priority = prio, obj_id = oid, data = d, index = i, client_ip = ip\<rparr>
      in priv_sift_up (c\<lparr>heap := heap c @ [it], index_map := AList.update oid i (index_map c)\<rparr>) i)"

text \<open>
  \<open>_pop\<close>. With the shared storage in slot 0 the source's heap is not empty and its
  \<open>root_item\<close> is that storage: \<open>root_item[1]\<close> raises \<open>TypeError\<close> before anything is changed.
\<close>

definition priv_pop :: "'d container \<Rightarrow> (error + 'd item option) \<times> 'd container" where
  "priv_pop c =
     (case shared_storage c of
        Some s \<Rightarrow> (Inl TypeError, c)
      | None \<Rightarrow>
          (case heap c of
             [] \<Rightarrow> (Inr None, c)
           | root_item # _ \<Rightarrow>
               if obj_id root_item \<notin> fst ` set (index_map c) then (Inl KeyError, c)
               else
                 let c1 = c\<lparr>index_map := AList.delete (obj_id root_item) (index_map c)\<rparr>
                 in if length (heap c1) = 1 then (Inr (Some root_item), c1\<lparr>heap := []\<rparr>)
                    else
                      let last_item = last (heap c1);
                          c2 = c1\<lparr>heap := (butlast (heap c1))[0 := last_item\<lparr>index := 0\<rparr>],
                                  index_map := AList.update (obj_id last_item) 0 (index_map c1)\<rparr>
                      in (Inr (Some root_item), priv_sift_down c2 0)))"

definition priv_update_priority ::
  "'d container \<Rightarrow> string \<Rightarrow> int \<Rightarrow> (error + unit) \<times> 'd container" where
  "priv_update_priority c oid new_priority =
     (case map_of (index_map c) oid of
        None \<Rightarrow> (Inl ValueError, c)
      | Some i \<Rightarrow>
          if i \<ge> length (heap c) then (Inl IndexError, c)
          else
            let old_priority = priority (heap c ! i);
                c1 = c\<lparr>heap := (heap c)[i := (heap c ! i)\<lparr>priority := new_priority\<rparr>]\<rparr>
            in if new_priority < old_priority then (Inr (), priv_sift_up c1 i)
               else if new_priority > old_priority then (Inr (), priv_sift_down c1 i)
               else (Inr (), c1))"


subsection \<open>Heap order\<close>

text \<open>The min-heap ordering, as the claim states it: every entry against its children.\<close>

definition heap_property :: "'d item list \<Rightarrow> bool" where
  "heap_property h \<longleftrightarrow>
     (\<forall>i < length h.
        (2 * i + 1 < length h \<longrightarrow> priority (h ! i) \<le> priority (h ! (2 * i + 1))) \<and>
        (2 * i + 2 < length h \<longrightarrow> priority (h ! i) \<le> priority (h ! (2 * i + 2))))"

text \<open>The same ordering read from the child: every entry but the root against its parent.\<close>

definition parent_ok :: "'d item list \<Rightarrow> nat \<Rightarrow> bool" where
  "parent_ok h j \<longleftrightarrow> priority (h ! ((j - 1) div 2)) \<le> priority (h ! j)"

lemma parent_lt: "0 < j \<Longrightarrow> (j - 1) div 2 < (j::nat)"
  by arith

lemma parent_of_left: "(2 * i + 1 - 1) div 2 = (i::nat)"
  by simp

lemma parent_of_right: "(2 * i + 2 - 1) div 2 = (i::nat)"
  by arith

lemma child_cases: "0 < j \<Longrightarrow> (j - 1) div 2 = (i::nat) \<Longrightarrow> j = 2 * i + 1 \<or> j = 2 * i + 2"
  by arith

lemma heap_property_parent:
  "heap_property h \<longleftrightarrow> (\<forall>j. 0 < j \<and> j < length h \<longrightarrow> parent_ok h j)"
proof
  assume hp: "heap_property h"
  show "\<forall>j. 0 < j \<and> j < length h \<longrightarrow> parent_ok h j"
  proof (intro allI impI)
    fix j assume j: "0 < j \<and> j < length h"
    let ?p = "(j - 1) div 2"
    have p: "?p < length h" using j parent_lt [of j] by simp
    from j have "j = 2 * ?p + 1 \<or> j = 2 * ?p + 2" by (intro child_cases) simp_all
    then show "parent_ok h j"
    proof
      assume e: "j = 2 * ?p + 1"
      with j have "2 * ?p + 1 < length h" by simp
      with hp p have "priority (h ! ?p) \<le> priority (h ! (2 * ?p + 1))"
        unfolding heap_property_def by blast
      with e show ?thesis unfolding parent_ok_def by simp
    next
      assume e: "j = 2 * ?p + 2"
      with j have "2 * ?p + 2 < length h" by simp
      with hp p have "priority (h ! ?p) \<le> priority (h ! (2 * ?p + 2))"
        unfolding heap_property_def by blast
      with e show ?thesis unfolding parent_ok_def by simp
    qed
  qed
next
  assume po: "\<forall>j. 0 < j \<and> j < length h \<longrightarrow> parent_ok h j"
  show "heap_property h"
    unfolding heap_property_def
  proof (intro allI impI conjI)
    fix i assume "2 * i + 1 < length h"
    with po have "parent_ok h (2 * i + 1)" by simp
    then show "priority (h ! i) \<le> priority (h ! (2 * i + 1))"
      unfolding parent_ok_def by simp
  next
    fix i assume "2 * i + 2 < length h"
    with po have "parent_ok h (2 * i + 2)" by simp
    then show "priority (h ! i) \<le> priority (h ! (2 * i + 2))"
      unfolding parent_ok_def parent_of_right by simp
  qed
qed

lemma priority_swap:
  assumes "i < length (heap c)" "j < length (heap c)" "k < length (heap c)"
  shows "priority (heap (priv_swap c i j) ! k) =
         (if k = j then priority (heap c ! i) else if k = i then priority (heap c ! j)
          else priority (heap c ! k))"
  using assms by (simp add: priv_swap_def Let_def nth_list_update)

lemma sift_up_ordered:
  assumes "i < length (heap c)"
    and "\<forall>j. 0 < j \<and> j < length (heap c) \<and> j \<noteq> i \<longrightarrow> parent_ok (heap c) j"
    and "\<forall>j. 0 < i \<and> 0 < j \<and> j < length (heap c) \<and> (j - 1) div 2 = i \<longrightarrow>
             priority (heap c ! ((i - 1) div 2)) \<le> priority (heap c ! j)"
  shows "\<forall>j. 0 < j \<and> j < length (heap (priv_sift_up c i)) \<longrightarrow> parent_ok (heap (priv_sift_up c i)) j"
  using assms
proof (induction c i rule: priv_sift_up.induct)
  case (1 c i)
  let ?h = "heap c"
  let ?p = "(i - 1) div 2"
  show ?case
  proof (cases "0 < i")
    case False
    with "1.prems"(2) show ?thesis by (subst priv_sift_up.simps, subst priv_sift_up.simps) auto
  next
    case pos: True
    show ?thesis
    proof (cases "priority (?h ! i) \<ge> priority (?h ! ?p)")
      case True
      then have "parent_ok ?h i" unfolding parent_ok_def .
      with "1.prems"(2) have "\<forall>j. 0 < j \<and> j < length ?h \<longrightarrow> parent_ok ?h j" by blast
      with pos True show ?thesis by (subst priv_sift_up.simps, subst priv_sift_up.simps) (simp add: Let_def)
    next
      case less: False
      let ?c' = "priv_swap c i ?p"
      have pi: "?p < i" using pos by (rule parent_lt)
      have pl: "?p < length ?h" using pi "1.prems"(1) by simp
      have il: "i < length ?h" by (rule "1.prems"(1))
      note pr = priority_swap [OF il pl]
      have a1: "?p < length (heap ?c')" using pl by simp
      have a2: "\<forall>j. 0 < j \<and> j < length (heap ?c') \<and> j \<noteq> ?p \<longrightarrow> parent_ok (heap ?c') j"
      proof (intro allI impI)
        fix j assume j: "0 < j \<and> j < length (heap ?c') \<and> j \<noteq> ?p"
        then have jl: "j < length ?h" by simp
        have qj: "(j - 1) div 2 < j" using j by (intro parent_lt) simp
        then have ql: "(j - 1) div 2 < length ?h" using jl by simp
        show "parent_ok (heap ?c') j"
        proof (cases "j = i")
          case True
          then show ?thesis using less pi unfolding parent_ok_def pr [OF jl] pr [OF ql] by simp
        next
          case ji: False
          with j "1.prems"(2) jl have pj: "parent_ok ?h j" by simp
          show ?thesis
          proof (cases "(j - 1) div 2 = i")
            case True
            with "1.prems"(3) pos j jl have "priority (?h ! ?p) \<le> priority (?h ! j)" by simp
            with True ji j pi show ?thesis unfolding parent_ok_def pr [OF jl] pr [OF ql] by simp
          next
            case qi: False
            show ?thesis
            proof (cases "(j - 1) div 2 = ?p")
              case True
              with pj less ji j qi show ?thesis unfolding parent_ok_def pr [OF jl] pr [OF ql] by simp
            next
              case False
              with pj ji j qi show ?thesis unfolding parent_ok_def pr [OF jl] pr [OF ql] by simp
            qed
          qed
        qed
      qed
      have a3: "\<forall>j. 0 < ?p \<and> 0 < j \<and> j < length (heap ?c') \<and> (j - 1) div 2 = ?p \<longrightarrow>
             priority (heap ?c' ! ((?p - 1) div 2)) \<le> priority (heap ?c' ! j)"
      proof (intro allI impI)
        fix j assume j: "0 < ?p \<and> 0 < j \<and> j < length (heap ?c') \<and> (j - 1) div 2 = ?p"
        then have jl: "j < length ?h" by simp
        have gp: "(?p - 1) div 2 < ?p" using j by (intro parent_lt) simp
        then have gl: "(?p - 1) div 2 < length ?h" using pl by simp
        from j pi "1.prems"(2) pl have pp: "parent_ok ?h ?p" by simp
        show "priority (heap ?c' ! ((?p - 1) div 2)) \<le> priority (heap ?c' ! j)"
        proof (cases "j = i")
          case True
          with pp gp pi show ?thesis unfolding pr [OF jl] pr [OF gl] parent_ok_def by simp
        next
          case False
          with j "1.prems"(2) jl have "parent_ok ?h j" by simp
          with j have "priority (?h ! ?p) \<le> priority (?h ! j)" unfolding parent_ok_def by simp
          moreover have "j \<noteq> ?p" using j parent_lt [of j] by auto
          ultimately show ?thesis using pp False gp pi unfolding pr [OF jl] pr [OF gl] parent_ok_def by simp
        qed
      qed
      from "1.IH" [OF pos refl less a1 a2 a3] pos less show ?thesis
        by (subst priv_sift_up.simps, subst priv_sift_up.simps) (simp add: Let_def)
    qed
  qed
qed


lemma smallest_of_min:
  "priority (h ! smallest_of h i) \<le> priority (h ! i) \<and>
   (2 * i + 1 < length h \<longrightarrow> priority (h ! smallest_of h i) \<le> priority (h ! (2 * i + 1))) \<and>
   (2 * i + 2 < length h \<longrightarrow> priority (h ! smallest_of h i) \<le> priority (h ! (2 * i + 2))) \<and>
   (smallest_of h i \<noteq> i \<longrightarrow> priority (h ! smallest_of h i) < priority (h ! i))"
  by (auto simp: smallest_of_def Let_def)

lemma smallest_of_child:
  assumes "0 < j" "j < length h" "(j - 1) div 2 = i"
  shows "priority (h ! smallest_of h i) \<le> priority (h ! j)"
  using child_cases [OF assms(1,3)] assms(2) smallest_of_min [of h i] by auto

lemma smallest_of_parent:
  "smallest_of h i \<noteq> i \<Longrightarrow>
     (smallest_of h i - 1) div 2 = i \<and> i < smallest_of h i \<and> smallest_of h i < length h"
  using smallest_of_cases [of h i] by auto

lemma sift_down_ordered:
  assumes "i < length (heap c)"
    and "\<forall>j. 0 < j \<and> j < length (heap c) \<and> (j - 1) div 2 \<noteq> i \<longrightarrow> parent_ok (heap c) j"
    and "\<forall>j. 0 < i \<and> 0 < j \<and> j < length (heap c) \<and> (j - 1) div 2 = i \<longrightarrow>
             priority (heap c ! ((i - 1) div 2)) \<le> priority (heap c ! j)"
  shows "\<forall>j. 0 < j \<and> j < length (heap (priv_sift_down c i)) \<longrightarrow>
             parent_ok (heap (priv_sift_down c i)) j"
  using assms
proof (induction c i rule: priv_sift_down.induct)
  case (1 c i)
  let ?h = "heap c"
  let ?s = "smallest_of ?h i"
  show ?case
  proof (cases "?s = i")
    case True
    have "parent_ok ?h j" if j: "0 < j \<and> j < length ?h" for j
    proof (cases "(j - 1) div 2 = i")
      case False
      with j "1.prems"(2) show ?thesis by simp
    next
      case pj: True
      from j pj have "priority (?h ! ?s) \<le> priority (?h ! j)" by (intro smallest_of_child) simp_all
      with True pj show ?thesis unfolding parent_ok_def by simp
    qed
    with True show ?thesis
      by (subst priv_sift_down.simps, subst priv_sift_down.simps) (simp add: Let_def)
  next
    case ne: False
    let ?c' = "priv_swap c i ?s"
    from smallest_of_parent [OF ne]
    have sp: "(?s - 1) div 2 = i" and ilt: "i < ?s" and sl: "?s < length ?h" by simp_all
    have il: "i < length ?h" by (rule "1.prems"(1))
    note pr = priority_swap [OF il sl]
    have lt: "priority (?h ! ?s) < priority (?h ! i)" using smallest_of_min [of ?h i] ne by simp
    have a1: "?s < length (heap ?c')" using sl by simp
    have a2: "\<forall>j. 0 < j \<and> j < length (heap ?c') \<and> (j - 1) div 2 \<noteq> ?s \<longrightarrow> parent_ok (heap ?c') j"
    proof (intro allI impI)
      fix j assume j: "0 < j \<and> j < length (heap ?c') \<and> (j - 1) div 2 \<noteq> ?s"
      then have jl: "j < length ?h" by simp
      have qj: "(j - 1) div 2 < j" using j by (intro parent_lt) simp
      then have ql: "(j - 1) div 2 < length ?h" using jl by simp
      show "parent_ok (heap ?c') j"
      proof (cases "(j - 1) div 2 = i")
        case pi: True
        then have ji: "j \<noteq> i" using qj by simp
        from j jl pi have "priority (?h ! ?s) \<le> priority (?h ! j)"
          by (intro smallest_of_child) simp_all
        with pi ji lt ilt show ?thesis unfolding parent_ok_def pr [OF jl] pr [OF ql] by simp
      next
        case npi: False
        with j jl "1.prems"(2) have pj: "parent_ok ?h j" by simp
        have js: "j \<noteq> ?s" using npi sp by auto
        show ?thesis
        proof (cases "j = i")
          case True
          with j have ipos: "0 < i" by simp
          with "1.prems"(3) sl sp ilt have "priority (?h ! ((i - 1) div 2)) \<le> priority (?h ! ?s)"
            by simp
          moreover have "(i - 1) div 2 \<noteq> i" "(i - 1) div 2 \<noteq> ?s"
            using parent_lt [OF ipos] ilt by simp_all
          ultimately show ?thesis using True ilt
            unfolding parent_ok_def pr [OF jl] pr [OF ql] by simp
        next
          case False
          with pj js npi j show ?thesis unfolding parent_ok_def pr [OF jl] pr [OF ql] by simp
        qed
      qed
    qed
    have a3: "\<forall>j. 0 < ?s \<and> 0 < j \<and> j < length (heap ?c') \<and> (j - 1) div 2 = ?s \<longrightarrow>
             priority (heap ?c' ! ((?s - 1) div 2)) \<le> priority (heap ?c' ! j)"
    proof (intro allI impI)
      fix j assume j: "0 < ?s \<and> 0 < j \<and> j < length (heap ?c') \<and> (j - 1) div 2 = ?s"
      then have jl: "j < length ?h" by simp
      have sj: "?s < j" using j parent_lt [of j] by simp
      from j jl "1.prems"(2) ilt have "parent_ok ?h j" by simp
      with j have "priority (?h ! ?s) \<le> priority (?h ! j)" unfolding parent_ok_def by simp
      with sj ilt show "priority (heap ?c' ! ((?s - 1) div 2)) \<le> priority (heap ?c' ! j)"
        unfolding sp pr [OF jl] pr [OF il] by simp
    qed
    from "1.IH" [OF refl ne a1 a2 a3] ne show ?thesis
      by (subst priv_sift_down.simps, subst priv_sift_down.simps) (simp add: Let_def)
  qed
qed


subsection \<open>Index map and position fields\<close>

text \<open>
  The index part of the claim: every stored entry is found by its id at its own position,
  and its position field says the same.
\<close>

definition index_synced :: "'d container \<Rightarrow> bool" where
  "index_synced c \<longleftrightarrow>
     (\<forall>i < length (heap c).
        map_of (index_map c) (obj_id (heap c ! i)) = Some i \<and> index (heap c ! i) = i)"

text \<open>The converse: the index map has no key twice and no key without its entry.\<close>

definition index_exact :: "'d container \<Rightarrow> bool" where
  "index_exact c \<longleftrightarrow>
     distinct (map fst (index_map c)) \<and>
     (\<forall>k i. map_of (index_map c) k = Some i \<longrightarrow> i < length (heap c) \<and> obj_id (heap c ! i) = k)"

definition index_inv :: "'d container \<Rightarrow> bool" where
  "index_inv c \<longleftrightarrow> index_synced c \<and> index_exact c"

lemma heap_swap_nth:
  assumes "i < length (heap c)" "j < length (heap c)" "k < length (heap c)"
  shows "heap (priv_swap c i j) ! k =
         (if k = j then (heap c ! i)\<lparr>index := j\<rparr> else if k = i then (heap c ! j)\<lparr>index := i\<rparr>
          else heap c ! k)"
  using assms by (simp add: priv_swap_def Let_def nth_list_update)

lemma index_map_swap:
  "map_of (index_map (priv_swap c i j)) x =
     (if x = obj_id (heap c ! j) then Some i else if x = obj_id (heap c ! i) then Some j
      else map_of (index_map c) x)"
  unfolding priv_swap_def Let_def by (simp add: update_conv')

lemma index_inv_ids:
  assumes "index_inv c" "i < length (heap c)" "j < length (heap c)"
  shows "obj_id (heap c ! i) = obj_id (heap c ! j) \<longleftrightarrow> i = j"
proof
  assume e: "obj_id (heap c ! i) = obj_id (heap c ! j)"
  from assms(1,2) have "map_of (index_map c) (obj_id (heap c ! i)) = Some i"
    unfolding index_inv_def index_synced_def by blast
  moreover from assms(1,3) have "map_of (index_map c) (obj_id (heap c ! j)) = Some j"
    unfolding index_inv_def index_synced_def by blast
  ultimately show "i = j" unfolding e by (metis option.inject)
next
  assume "i = j"
  then show "obj_id (heap c ! i) = obj_id (heap c ! j)" by (rule arg_cong)
qed

lemma index_inv_swap:
  assumes inv: "index_inv c" and il: "i < length (heap c)" and jl: "j < length (heap c)"
  shows "index_inv (priv_swap c i j)"
proof -
  let ?c' = "priv_swap c i j"
  note ids = index_inv_ids [OF inv]
  have syn: "map_of (index_map c) (obj_id (heap c ! k)) = Some k" "index (heap c ! k) = k"
    if "k < length (heap c)" for k
    using inv that unfolding index_inv_def index_synced_def by blast+
  have exa: "n < length (heap c) \<and> obj_id (heap c ! n) = x"
    if "map_of (index_map c) x = Some n" for x n
    using inv that unfolding index_inv_def index_exact_def by blast
  have s: "index_synced ?c'"
    unfolding index_synced_def
  proof (intro allI impI)
    fix k assume "k < length (heap ?c')"
    then have kl: "k < length (heap c)" by simp
    show "map_of (index_map ?c') (obj_id (heap ?c' ! k)) = Some k \<and> index (heap ?c' ! k) = k"
    proof (cases "k = j")
      case True
      with ids [OF il jl] show ?thesis
        unfolding heap_swap_nth [OF il jl kl] index_map_swap by simp
    next
      case kj: False
      show ?thesis
      proof (cases "k = i")
        case True
        with kj show ?thesis
          unfolding heap_swap_nth [OF il jl kl] index_map_swap by simp
      next
        case False
        with kj ids [OF kl il] ids [OF kl jl] syn [OF kl] show ?thesis
          unfolding heap_swap_nth [OF il jl kl] index_map_swap by simp
      qed
    qed
  qed
  have d: "distinct (map fst (index_map ?c'))"
    using inv unfolding index_inv_def index_exact_def
    by (simp add: priv_swap_def Let_def distinct_update)
  have e: "n < length (heap ?c') \<and> obj_id (heap ?c' ! n) = x"
    if m: "map_of (index_map ?c') x = Some n" for x n
  proof (cases "x = obj_id (heap c ! j)")
    case True
    with m have "n = i" by (simp add: index_map_swap)
    with True il jl ids [OF il jl] show ?thesis by (auto simp: heap_swap_nth)
  next
    case nj: False
    show ?thesis
    proof (cases "x = obj_id (heap c ! i)")
      case True
      with m nj have "n = j" by (simp add: index_map_swap)
      with True il jl show ?thesis by (simp add: heap_swap_nth)
    next
      case False
      with m nj have "map_of (index_map c) x = Some n" by (simp add: index_map_swap)
      from exa [OF this] have nl: "n < length (heap c)" and nx: "obj_id (heap c ! n) = x" by simp_all
      from nx nj False have "n \<noteq> i" "n \<noteq> j" by auto
      with nl nx il jl show ?thesis by (simp add: heap_swap_nth)
    qed
  qed
  from s d e show ?thesis unfolding index_inv_def index_exact_def by simp
qed

lemma length_heap_sift_up [simp]: "length (heap (priv_sift_up c i)) = length (heap c)"
proof (induction c i rule: priv_sift_up.induct)
  case (1 c i)
  then show ?case by (subst priv_sift_up.simps) (simp add: Let_def)
qed

lemma length_heap_sift_down [simp]: "length (heap (priv_sift_down c i)) = length (heap c)"
proof (induction c i rule: priv_sift_down.induct)
  case (1 c i)
  then show ?case by (subst priv_sift_down.simps) (simp add: Let_def)
qed

lemma index_inv_sift_up:
  "index_inv c \<Longrightarrow> i < length (heap c) \<Longrightarrow> index_inv (priv_sift_up c i)"
proof (induction c i rule: priv_sift_up.induct)
  case (1 c i)
  show ?case
  proof (cases "0 < i \<and> \<not> priority (heap c ! i) \<ge> priority (heap c ! ((i - 1) div 2))")
    case False
    with "1.prems" show ?thesis by (subst priv_sift_up.simps) (auto simp: Let_def)
  next
    case True
    then have pl: "(i - 1) div 2 < length (heap c)" using "1.prems"(2) parent_lt [of i] by simp
    have "index_inv (priv_swap c i ((i - 1) div 2))"
      by (rule index_inv_swap [OF "1.prems"(1) "1.prems"(2) pl])
    with True "1.IH" [OF _ refl] pl show ?thesis
      by (subst priv_sift_up.simps) (simp add: Let_def)
  qed
qed

lemma index_inv_sift_down:
  "index_inv c \<Longrightarrow> i < length (heap c) \<Longrightarrow> index_inv (priv_sift_down c i)"
proof (induction c i rule: priv_sift_down.induct)
  case (1 c i)
  show ?case
  proof (cases "smallest_of (heap c) i = i")
    case True
    with "1.prems" show ?thesis by (subst priv_sift_down.simps) (simp add: Let_def)
  next
    case False
    from smallest_of_parent [OF False] have sl: "smallest_of (heap c) i < length (heap c)" by simp
    have "index_inv (priv_swap c i (smallest_of (heap c) i))"
      by (rule index_inv_swap [OF "1.prems"(1) "1.prems"(2) sl])
    with False "1.IH" [OF refl False] sl show ?thesis
      by (subst priv_sift_down.simps) (simp add: Let_def)
  qed
qed


subsection \<open>\<open>_push\<close>, \<open>_pop\<close> and \<open>_update_priority\<close> keep the heap well formed\<close>

definition heap_inv :: "'d container \<Rightarrow> bool" where
  "heap_inv c \<longleftrightarrow> heap_property (heap c) \<and> index_inv c"

lemma index_inv_key_iff:
  assumes "index_inv c"
  shows "k \<in> fst ` set (index_map c) \<longleftrightarrow> (\<exists>i < length (heap c). obj_id (heap c ! i) = k)"
proof
  assume "k \<in> fst ` set (index_map c)"
  then obtain i where "map_of (index_map c) k = Some i"
    by (metis map_of_eq_None_iff not_Some_eq)
  with assms show "\<exists>i < length (heap c). obj_id (heap c ! i) = k"
    unfolding index_inv_def index_exact_def by blast
next
  assume "\<exists>i < length (heap c). obj_id (heap c ! i) = k"
  then obtain i where "i < length (heap c)" "obj_id (heap c ! i) = k" by blast
  with assms have "map_of (index_map c) k = Some i"
    unfolding index_inv_def index_synced_def by blast
  then show "k \<in> fst ` set (index_map c)"
    by (metis map_of_eq_None_iff option.distinct(1))
qed

lemma heap_inv_push:
  assumes inv: "heap_inv c" and fresh: "oid \<notin> fst ` set (index_map c)"
  shows "heap_inv (priv_push c prio oid d ip)"
proof -
  let ?n = "length (heap c)"
  let ?it = "\<lparr>priority = prio, obj_id = oid, data = d, index = ?n, client_ip = ip\<rparr>"
  let ?c1 = "c\<lparr>heap := heap c @ [?it], index_map := AList.update oid ?n (index_map c)\<rparr>"
  from inv have hp: "heap_property (heap c)" and ii: "index_inv c" by (simp_all add: heap_inv_def)
  have other: "obj_id (heap c ! k) \<noteq> oid" if "k < ?n" for k
    using index_inv_key_iff [OF ii, of oid] fresh that by blast
  have syn: "map_of (index_map c) (obj_id (heap c ! k)) = Some k" "index (heap c ! k) = k"
    if "k < ?n" for k
    using ii that unfolding index_inv_def index_synced_def by blast+
  have exa: "m < ?n \<and> obj_id (heap c ! m) = x" if "map_of (index_map c) x = Some m" for x m
    using ii that unfolding index_inv_def index_exact_def by blast
  have s1: "index_synced ?c1"
    unfolding index_synced_def
  proof (intro allI impI)
    fix k assume "k < length (heap ?c1)"
    then consider "k < ?n" | "k = ?n" by fastforce
    then show "map_of (index_map ?c1) (obj_id (heap ?c1 ! k)) = Some k \<and> index (heap ?c1 ! k) = k"
    proof cases
      case 1
      with other [OF 1] syn [OF 1] show ?thesis by (simp add: nth_append update_conv')
    next
      case 2
      then show ?thesis by (simp add: update_conv')
    qed
  qed
  have e1: "index_exact ?c1"
    unfolding index_exact_def
  proof (intro conjI allI impI)
    show "distinct (map fst (index_map ?c1))"
      using ii unfolding index_inv_def index_exact_def by (simp add: distinct_update)
  next
    fix x m assume m: "map_of (index_map ?c1) x = Some m"
    show "m < length (heap ?c1)"
    proof (cases "x = oid")
      case True with m show ?thesis by (simp add: update_conv')
    next
      case False
      with m have "map_of (index_map c) x = Some m" by (simp add: update_conv')
      from exa [OF this] show ?thesis by simp
    qed
    show "obj_id (heap ?c1 ! m) = x"
    proof (cases "x = oid")
      case True
      with m have mn: "m = ?n" by (simp add: update_conv')
      show ?thesis unfolding mn using True by simp
    next
      case False
      with m have "map_of (index_map c) x = Some m" by (simp add: update_conv')
      from exa [OF this] show ?thesis by (simp add: nth_append)
    qed
  qed
  have i1: "index_inv ?c1" using s1 e1 by (simp add: index_inv_def)
  have nl: "?n < length (heap ?c1)" by simp
  have po: "parent_ok (heap c) j" if "0 < j \<and> j < ?n" for j
    using hp that unfolding heap_property_parent by blast
  have a2: "\<forall>j. 0 < j \<and> j < length (heap ?c1) \<and> j \<noteq> ?n \<longrightarrow> parent_ok (heap ?c1) j"
  proof (intro allI impI)
    fix j assume j: "0 < j \<and> j < length (heap ?c1) \<and> j \<noteq> ?n"
    then have jl: "0 < j \<and> j < ?n" by simp
    then have "(j - 1) div 2 < ?n" using parent_lt [of j] by simp
    with po [OF jl] jl show "parent_ok (heap ?c1) j"
      unfolding parent_ok_def by (simp add: nth_append)
  qed
  have a3: "\<forall>j. 0 < ?n \<and> 0 < j \<and> j < length (heap ?c1) \<and> (j - 1) div 2 = ?n \<longrightarrow>
             priority (heap ?c1 ! ((?n - 1) div 2)) \<le> priority (heap ?c1 ! j)"
  proof (intro allI impI)
    fix j assume j: "0 < ?n \<and> 0 < j \<and> j < length (heap ?c1) \<and> (j - 1) div 2 = ?n"
    then have "?n < j" using parent_lt [of j] by simp
    with j show "priority (heap ?c1 ! ((?n - 1) div 2)) \<le> priority (heap ?c1 ! j)" by simp
  qed
  have "heap_property (heap (priv_sift_up ?c1 ?n))"
    unfolding heap_property_parent by (rule sift_up_ordered [OF nl a2 a3])
  moreover have "index_inv (priv_sift_up ?c1 ?n)" by (rule index_inv_sift_up [OF i1 nl])
  ultimately show ?thesis by (simp add: heap_inv_def priv_push_def Let_def)
qed


lemma priv_pop_shared [simp]: "shared_storage c = Some s \<Longrightarrow> priv_pop c = (Inl TypeError, c)"
  by (simp add: priv_pop_def)

lemma priv_pop_returns: "fst (priv_pop c) = Inr r \<Longrightarrow> shared_storage c = None"
  by (cases "shared_storage c") simp_all

lemma priv_pop_empty [simp]:
  "heap c = [] \<Longrightarrow> shared_storage c = None \<Longrightarrow> priv_pop c = (Inr None, c)"
  by (simp add: priv_pop_def)

lemma priv_pop_result:
  assumes inv: "heap_inv c" and ne: "heap c \<noteq> []" and un: "shared_storage c = None"
  shows "fst (priv_pop c) = Inr (Some (heap c ! 0))"
proof -
  from inv have ii: "index_inv c" by (simp add: heap_inv_def)
  from ne obtain r rs where h: "heap c = r # rs" by (cases "heap c") auto
  have "obj_id r \<in> fst ` set (index_map c)"
    using index_inv_key_iff [OF ii, of "obj_id r"] h by auto
  with h un show ?thesis by (simp add: priv_pop_def Let_def)
qed

lemma heap_inv_pop_entries:
  assumes inv: "heap_inv c" and un: "shared_storage c = None"
  shows "heap_inv (snd (priv_pop c))"
proof (cases "heap c")
  case Nil
  with inv un show ?thesis by simp
next
  case (Cons r rs)
  let ?n = "length (heap c)"
  from inv have hp: "heap_property (heap c)" and ii: "index_inv c" by (simp_all add: heap_inv_def)
  have rin: "obj_id r \<in> fst ` set (index_map c)"
    using index_inv_key_iff [OF ii, of "obj_id r"] Cons by auto
  have r0: "heap c ! 0 = r" using Cons by simp
  note ids = index_inv_ids [OF ii]
  have syn: "map_of (index_map c) (obj_id (heap c ! k)) = Some k" "index (heap c ! k) = k"
    if "k < ?n" for k
    using ii that unfolding index_inv_def index_synced_def by blast+
  have exa: "m < ?n \<and> obj_id (heap c ! m) = x" if "map_of (index_map c) x = Some m" for x m
    using ii that unfolding index_inv_def index_exact_def by blast
  have dist: "distinct (map fst (index_map c))"
    using ii unfolding index_inv_def index_exact_def by blast
  let ?im1 = "AList.delete (obj_id r) (index_map c)"
  show ?thesis
  proof (cases "rs = []")
    case True
    let ?c' = "c\<lparr>index_map := ?im1, heap := []\<rparr>"
    have "map_of ?im1 x = None" for x
    proof (cases "map_of ?im1 x")
      case (Some m)
      then have xr: "x \<noteq> obj_id r" and "map_of (index_map c) x = Some m"
        by (auto simp: delete_conv' split: if_splits)
      from exa [OF this(2)] Cons True xr show ?thesis by auto
    qed simp
    then have "index_inv ?c'"
      using dist by (simp add: index_inv_def index_synced_def index_exact_def distinct_delete)
    moreover have "heap_property (heap ?c')" by (simp add: heap_property_def)
    ultimately show ?thesis using Cons True rin un
      by (simp add: priv_pop_def Let_def heap_inv_def)
  next
    case False
    then have n2: "2 \<le> ?n" using Cons by (cases rs) simp_all
    let ?l = "last (heap c)"
    let ?h2 = "(butlast (heap c))[0 := ?l\<lparr>index := 0\<rparr>]"
    let ?c2 = "c\<lparr>heap := ?h2, index_map := AList.update (obj_id ?l) 0 ?im1\<rparr>"
    have l: "?l = heap c ! (?n - 1)" using Cons by (simp add: last_conv_nth)
    have n1: "?n - 1 < ?n" and z: "0 < ?n" using Cons by simp_all
    have lr: "obj_id ?l \<noteq> obj_id r"
      unfolding l r0 [symmetric] using ids [OF n1 z] n2 by simp
    have len2: "length ?h2 = ?n - 1" by simp
    have nth2: "?h2 ! k = (if k = 0 then ?l\<lparr>index := 0\<rparr> else heap c ! k)" if "k < ?n - 1" for k
      using that by (simp add: nth_list_update nth_butlast)
    have s2: "index_synced ?c2"
      unfolding index_synced_def
    proof (intro allI impI)
      fix k assume "k < length (heap ?c2)"
      then have k: "k < ?n - 1" by simp
      show "map_of (index_map ?c2) (obj_id (heap ?c2 ! k)) = Some k \<and> index (heap ?c2 ! k) = k"
      proof (cases "k = 0")
        case True
        with k show ?thesis by (simp add: update_conv')
      next
        case False
        with k have kl: "k < ?n" by simp
        have "obj_id (heap c ! k) \<noteq> obj_id ?l"
          unfolding l using ids [OF kl n1] k by simp
        moreover have "obj_id (heap c ! k) \<noteq> obj_id r"
          unfolding r0 [symmetric] using ids [OF kl z] False by simp
        ultimately show ?thesis using False k syn [OF kl]
          by (simp add: update_conv' delete_conv' nth_butlast)
      qed
    qed
    have e2: "index_exact ?c2"
      unfolding index_exact_def
    proof (intro conjI allI impI)
      show "distinct (map fst (index_map ?c2))"
        using dist by (simp add: distinct_update distinct_delete)
    next
      fix x m assume m: "map_of (index_map ?c2) x = Some m"
      have "m < ?n - 1 \<and> obj_id (?h2 ! m) = x"
      proof (cases "x = obj_id ?l")
        case True
        with m have "m = 0" by (simp add: update_conv')
        with True n2 show ?thesis by (simp add: nth_list_update)
      next
        case xl: False
        with m have xr: "x \<noteq> obj_id r" and "map_of (index_map c) x = Some m"
          by (auto simp: update_conv' delete_conv' split: if_splits)
        from exa [OF this(2)] have ml: "m < ?n" and mx: "obj_id (heap c ! m) = x" by simp_all
        have "m \<noteq> ?n - 1"
        proof
          assume "m = ?n - 1"
          with mx l have "x = obj_id ?l" by simp
          with xl show False by simp
        qed
        moreover have "m \<noteq> 0"
        proof
          assume "m = 0"
          with mx r0 have "x = obj_id r" by simp
          with xr show False by simp
        qed
        ultimately have "m < ?n - 1" "m \<noteq> 0" using ml by simp_all
        with mx nth2 [of m] show ?thesis by simp
      qed
      then show "m < length (heap ?c2)" "obj_id (heap ?c2 ! m) = x" by simp_all
    qed
    have i2: "index_inv ?c2" using s2 e2 by (simp add: index_inv_def)
    have zl: "0 < length (heap ?c2)" using n2 by simp
    have po: "parent_ok (heap c) j" if "0 < j \<and> j < ?n" for j
      using hp that unfolding heap_property_parent by blast
    have a2: "\<forall>j. 0 < j \<and> j < length (heap ?c2) \<and> (j - 1) div 2 \<noteq> 0 \<longrightarrow> parent_ok (heap ?c2) j"
    proof (intro allI impI)
      fix j assume j: "0 < j \<and> j < length (heap ?c2) \<and> (j - 1) div 2 \<noteq> 0"
      then have jl: "0 < j \<and> j < ?n" and j1: "j < ?n - 1" by auto
      have "(j - 1) div 2 < j" using j by (intro parent_lt) simp
      then have q1: "(j - 1) div 2 < ?n - 1" using j1 by simp
      from po [OF jl] j show "parent_ok (heap ?c2) j"
        unfolding parent_ok_def using nth2 [OF j1] nth2 [OF q1] by simp
    qed
    have a3: "\<forall>j. (0::nat) < 0 \<and> 0 < j \<and> j < length (heap ?c2) \<and> (j - 1) div 2 = 0 \<longrightarrow>
             priority (heap ?c2 ! ((0 - 1) div 2)) \<le> priority (heap ?c2 ! j)"
      by simp
    have "heap_property (heap (priv_sift_down ?c2 0))"
      unfolding heap_property_parent by (rule sift_down_ordered [OF zl a2 a3])
    moreover have "index_inv (priv_sift_down ?c2 0)" by (rule index_inv_sift_down [OF i2 zl])
    ultimately show ?thesis using Cons False rin un
      by (simp add: priv_pop_def Let_def heap_inv_def)
  qed
qed

lemma heap_inv_pop:
  assumes inv: "heap_inv c"
  shows "heap_inv (snd (priv_pop c))"
proof (cases "shared_storage c")
  case None
  with inv show ?thesis by (rule heap_inv_pop_entries)
next
  case (Some s)
  with inv show ?thesis by simp
qed


lemma heap_inv_update_priority:
  assumes inv: "heap_inv c"
  shows "heap_inv (snd (priv_update_priority c oid new_priority))"
proof (cases "map_of (index_map c) oid")
  case None
  with inv show ?thesis by (simp add: priv_update_priority_def)
next
  case (Some i)
  let ?n = "length (heap c)"
  from inv have hp: "heap_property (heap c)" and ii: "index_inv c" by (simp_all add: heap_inv_def)
  from ii Some have il: "i < ?n" unfolding index_inv_def index_exact_def by blast
  let ?old = "priority (heap c ! i)"
  let ?h1 = "(heap c)[i := (heap c ! i)\<lparr>priority := new_priority\<rparr>]"
  let ?c1 = "c\<lparr>heap := ?h1\<rparr>"
  have nth1: "?h1 ! k = (if k = i then (heap c ! i)\<lparr>priority := new_priority\<rparr> else heap c ! k)"
    if "k < ?n" for k
    using that by (simp add: nth_list_update)
  have pr1: "priority (?h1 ! k) = (if k = i then new_priority else priority (heap c ! k))"
    if "k < ?n" for k
    using nth1 [OF that] by simp
  have i1: "index_inv ?c1"
  proof -
    have "obj_id (?h1 ! k) = obj_id (heap c ! k) \<and> index (?h1 ! k) = index (heap c ! k)"
      if "k < ?n" for k
      using nth1 [OF that] by simp
    with ii show ?thesis
      unfolding index_inv_def index_synced_def index_exact_def by simp
  qed
  have l1: "i < length (heap ?c1)" using il by simp
  have po: "parent_ok (heap c) j" if "0 < j \<and> j < ?n" for j
    using hp that unfolding heap_property_parent by blast
  have grand: "\<forall>j. 0 < i \<and> 0 < j \<and> j < length (heap ?c1) \<and> (j - 1) div 2 = i \<longrightarrow>
             priority (heap ?c1 ! ((i - 1) div 2)) \<le> priority (heap ?c1 ! j)"
  proof (intro allI impI)
    fix j assume j: "0 < i \<and> 0 < j \<and> j < length (heap ?c1) \<and> (j - 1) div 2 = i"
    then have jl: "0 < j \<and> j < ?n" by simp
    have ij: "i < j" using j parent_lt [of j] by auto
    have pi: "(i - 1) div 2 < i" using j by (intro parent_lt) simp
    then have pl: "(i - 1) div 2 < ?n" using il by simp
    from po [OF jl] j have 1: "?old \<le> priority (heap c ! j)" unfolding parent_ok_def by auto
    from po [of i] j il have 2: "priority (heap c ! ((i - 1) div 2)) \<le> ?old"
      unfolding parent_ok_def by simp
    have "priority (heap ?c1 ! ((i - 1) div 2)) = priority (heap c ! ((i - 1) div 2))"
      using pi by simp
    moreover have "priority (heap ?c1 ! j) = priority (heap c ! j)"
      using ij by simp
    ultimately show "priority (heap ?c1 ! ((i - 1) div 2)) \<le> priority (heap ?c1 ! j)"
      using 1 2 by linarith
  qed
  show ?thesis
  proof (cases "new_priority < ?old")
    case True
    have a2: "\<forall>j. 0 < j \<and> j < length (heap ?c1) \<and> j \<noteq> i \<longrightarrow> parent_ok (heap ?c1) j"
    proof (intro allI impI)
      fix j assume j: "0 < j \<and> j < length (heap ?c1) \<and> j \<noteq> i"
      then have jl: "0 < j \<and> j < ?n" by simp
      have "(j - 1) div 2 < j" using j by (intro parent_lt) simp
      then have ql: "(j - 1) div 2 < ?n" using jl by simp
      have pj: "priority (heap ?c1 ! j) = priority (heap c ! j)" using j by simp
      have "priority (heap ?c1 ! ((j - 1) div 2)) \<le> priority (heap c ! ((j - 1) div 2))"
        using True il by (cases "(j - 1) div 2 = i") simp_all
      with po [OF jl] pj show "parent_ok (heap ?c1) j"
        unfolding parent_ok_def by linarith
    qed
    have "heap_property (heap (priv_sift_up ?c1 i))"
      unfolding heap_property_parent by (rule sift_up_ordered [OF l1 a2 grand])
    moreover have "index_inv (priv_sift_up ?c1 i)" by (rule index_inv_sift_up [OF i1 l1])
    ultimately show ?thesis using Some il True
      by (simp add: priv_update_priority_def Let_def heap_inv_def)
  next
    case nlt: False
    show ?thesis
    proof (cases "new_priority > ?old")
      case True
      have a2: "\<forall>j. 0 < j \<and> j < length (heap ?c1) \<and> (j - 1) div 2 \<noteq> i \<longrightarrow> parent_ok (heap ?c1) j"
      proof (intro allI impI)
        fix j assume j: "0 < j \<and> j < length (heap ?c1) \<and> (j - 1) div 2 \<noteq> i"
        then have jl: "0 < j \<and> j < ?n" by simp
        have "(j - 1) div 2 < j" using j by (intro parent_lt) simp
        then have ql: "(j - 1) div 2 < ?n" using jl by simp
        have pq: "priority (heap ?c1 ! ((j - 1) div 2)) = priority (heap c ! ((j - 1) div 2))"
          using j by simp
        have "priority (heap c ! j) \<le> priority (heap ?c1 ! j)"
          using True il by (cases "j = i") simp_all
        with po [OF jl] pq show "parent_ok (heap ?c1) j"
          unfolding parent_ok_def by linarith
      qed
      have "heap_property (heap (priv_sift_down ?c1 i))"
        unfolding heap_property_parent by (rule sift_down_ordered [OF l1 a2 grand])
      moreover have "index_inv (priv_sift_down ?c1 i)" by (rule index_inv_sift_down [OF i1 l1])
      ultimately show ?thesis using Some il True nlt
        by (simp add: priv_update_priority_def Let_def heap_inv_def)
    next
      case False
      with nlt have eq: "new_priority = ?old" by simp
      have "?h1 = heap c" unfolding eq by (simp add: list_update_same_conv il)
      with inv Some il eq show ?thesis
        by (simp add: priv_update_priority_def Let_def)
    qed
  qed
qed


subsection \<open>Frame: what the heap operations leave alone\<close>

lemma swap_frame [simp]:
  "ip_to_sessions (priv_swap c i j) = ip_to_sessions c"
  "jwt_to_session (priv_swap c i j) = jwt_to_session c"
  "jwt_to_session_order (priv_swap c i j) = jwt_to_session_order c"
  "MAX_SESSIONS (priv_swap c i j) = MAX_SESSIONS c"
  "DISABLE_ISOLATION_MODE (priv_swap c i j) = DISABLE_ISOLATION_MODE c"
  "shared_storage (priv_swap c i j) = shared_storage c"
  by (simp_all add: priv_swap_def Let_def)

lemma sift_up_frame [simp]:
  "ip_to_sessions (priv_sift_up c i) = ip_to_sessions c \<and>
   jwt_to_session (priv_sift_up c i) = jwt_to_session c \<and>
   jwt_to_session_order (priv_sift_up c i) = jwt_to_session_order c \<and>
   MAX_SESSIONS (priv_sift_up c i) = MAX_SESSIONS c \<and>
   DISABLE_ISOLATION_MODE (priv_sift_up c i) = DISABLE_ISOLATION_MODE c \<and>
   shared_storage (priv_sift_up c i) = shared_storage c"
proof (induction c i rule: priv_sift_up.induct)
  case (1 c i)
  then show ?case by (subst (1 2 3 4 5 6) priv_sift_up.simps) (simp add: Let_def)
qed

lemma sift_down_frame [simp]:
  "ip_to_sessions (priv_sift_down c i) = ip_to_sessions c \<and>
   jwt_to_session (priv_sift_down c i) = jwt_to_session c \<and>
   jwt_to_session_order (priv_sift_down c i) = jwt_to_session_order c \<and>
   MAX_SESSIONS (priv_sift_down c i) = MAX_SESSIONS c \<and>
   DISABLE_ISOLATION_MODE (priv_sift_down c i) = DISABLE_ISOLATION_MODE c \<and>
   shared_storage (priv_sift_down c i) = shared_storage c"
proof (induction c i rule: priv_sift_down.induct)
  case (1 c i)
  then show ?case by (subst (1 2 3 4 5 6) priv_sift_down.simps) (simp add: Let_def)
qed

lemma push_frame [simp]:
  "ip_to_sessions (priv_push c p oid d ip) = ip_to_sessions c"
  "jwt_to_session (priv_push c p oid d ip) = jwt_to_session c"
  "jwt_to_session_order (priv_push c p oid d ip) = jwt_to_session_order c"
  "MAX_SESSIONS (priv_push c p oid d ip) = MAX_SESSIONS c"
  "DISABLE_ISOLATION_MODE (priv_push c p oid d ip) = DISABLE_ISOLATION_MODE c"
  "shared_storage (priv_push c p oid d ip) = shared_storage c"
  by (simp_all add: priv_push_def Let_def)

lemma pop_frame [simp]:
  "ip_to_sessions (snd (priv_pop c)) = ip_to_sessions c"
  "jwt_to_session (snd (priv_pop c)) = jwt_to_session c"
  "jwt_to_session_order (snd (priv_pop c)) = jwt_to_session_order c"
  "MAX_SESSIONS (snd (priv_pop c)) = MAX_SESSIONS c"
  "DISABLE_ISOLATION_MODE (snd (priv_pop c)) = DISABLE_ISOLATION_MODE c"
  "shared_storage (snd (priv_pop c)) = shared_storage c"
  by (simp_all add: priv_pop_def Let_def split: list.splits option.splits)

lemma update_priority_frame [simp]:
  "ip_to_sessions (snd (priv_update_priority c oid p)) = ip_to_sessions c"
  "jwt_to_session (snd (priv_update_priority c oid p)) = jwt_to_session c"
  "jwt_to_session_order (snd (priv_update_priority c oid p)) = jwt_to_session_order c"
  "MAX_SESSIONS (snd (priv_update_priority c oid p)) = MAX_SESSIONS c"
  "DISABLE_ISOLATION_MODE (snd (priv_update_priority c oid p)) = DISABLE_ISOLATION_MODE c"
  "shared_storage (snd (priv_update_priority c oid p)) = shared_storage c"
  by (simp_all add: priv_update_priority_def Let_def split: option.splits)

subsection \<open>Client addresses\<close>

text \<open>Python truthiness of an optional string: \<open>None\<close> and the empty string are false.\<close>

definition truthy :: "string option \<Rightarrow> bool" where
  "truthy s \<longleftrightarrow> (case s of None \<Rightarrow> False | Some x \<Rightarrow> x \<noteq> [])"

definition endswith :: "string \<Rightarrow> string \<Rightarrow> bool" where
  "endswith s suffix \<longleftrightarrow>
     length suffix \<le> length s \<and> drop (length s - length suffix) s = suffix"

text \<open>\<open>s.split(sep)\<close> for a one-character separator; the result is never empty.\<close>

fun split_on :: "char \<Rightarrow> string \<Rightarrow> string list" where
  "split_on sep [] = [[]]"
| "split_on sep (x # xs) =
     (if x = sep then [] # split_on sep xs
      else (case split_on sep xs of
              [] \<Rightarrow> [[x]]
            | w # ws \<Rightarrow> (x # w) # ws))"

fun join :: "string \<Rightarrow> string list \<Rightarrow> string" where
  "join sep [] = []"
| "join sep [w] = w"
| "join sep (w # ws) = w @ sep @ join sep ws"

definition normalize_ip_for_limiting :: "string \<Rightarrow> string" where
  "normalize_ip_for_limiting ip =
     (if endswith ip ''/64'' then ip
      else if CHR '':'' \<in> set ip then
        (let parts = split_on CHR '':'' ip
         in if length parts \<ge> 4 then join '':'' (take 4 parts) @ ''::/64'' else ip @ ''/64'')
      else ip)"


subsection \<open>Bookkeeping of sessions per address\<close>

definition handle_client_ip_and_session_eviction ::
  "'d container \<Rightarrow> string \<Rightarrow> string option \<Rightarrow> 'd container" where
  "handle_client_ip_and_session_eviction c identifier cip =
     (if \<not> truthy cip then c
      else
        let normalized_ip = normalize_ip_for_limiting (the cip)
        in case map_of (ip_to_sessions c) normalized_ip of
             None \<Rightarrow> c
           | Some l \<Rightarrow>
               let l' = filter (\<lambda>e. e \<noteq> identifier) l
               in if l' = [] then
                    c\<lparr>ip_to_sessions := AList.delete normalized_ip (ip_to_sessions c)\<rparr>
                  else c\<lparr>ip_to_sessions := AList.update normalized_ip l' (ip_to_sessions c)\<rparr>)"

text \<open>
  The loop that both \<open>_handle_client_ip_and_session_addition\<close> and
  \<open>_handle_client_ip_and_session_reattribution\<close> end with: while the list of the address
  is longer than the cap, force the priority of its first session to 0, pop the root of
  the heap, and drop the first session from the list.
\<close>

function enforce_ip_cap ::
  "int \<Rightarrow> 'd container \<Rightarrow> string \<Rightarrow> (error + unit) \<times> 'd container" where
  "enforce_ip_cap MAX_SESSIONS_PER_IP c normalized_ip =
     (case map_of (ip_to_sessions c) normalized_ip of
        None \<Rightarrow> (Inl KeyError, c)
      | Some l \<Rightarrow>
          if int (length l) > MAX_SESSIONS_PER_IP then
            (case l of
               [] \<Rightarrow> (Inl IndexError, c)
             | session_id_to_remove # _ \<Rightarrow>
                 (case priv_update_priority c session_id_to_remove 0 of
                    (Inl e, c1) \<Rightarrow> (Inl e, c1)
                  | (Inr _, c1) \<Rightarrow>
                      (case priv_pop c1 of
                         (Inl e, c2) \<Rightarrow> (Inl e, c2)
                       | (Inr _, c2) \<Rightarrow>
                           (case map_of (ip_to_sessions c2) normalized_ip of
                              None \<Rightarrow> (Inl KeyError, c2)
                            | Some l2 \<Rightarrow>
                                enforce_ip_cap MAX_SESSIONS_PER_IP
                                  (c2\<lparr>ip_to_sessions :=
                                        AList.update normalized_ip (drop 1 l2) (ip_to_sessions c2)\<rparr>)
                                  normalized_ip))))
          else (Inr (), c))"
  by pat_completeness auto
termination
proof (relation "measure (\<lambda>(K, c, ip). case map_of (ip_to_sessions c) ip of None \<Rightarrow> 0 | Some l \<Rightarrow> length l)")
  show "wf (measure (\<lambda>(K, c, ip). case map_of (ip_to_sessions c) ip of None \<Rightarrow> 0 | Some l \<Rightarrow> length l))"
    by simp
next
  fix K :: int and c :: "'d container" and normalized_ip l sid rest x c1 b xa c2 ba l2
  assume a: "map_of (ip_to_sessions c) normalized_ip = Some l" "l = sid # rest"
    "(x, c1) = priv_update_priority c sid 0" "(xa, c2) = priv_pop c1"
    "map_of (ip_to_sessions c2) normalized_ip = Some l2"
  from a(3) have "c1 = snd (priv_update_priority c sid 0)" by (metis snd_conv)
  moreover from a(4) have "c2 = snd (priv_pop c1)" by (metis snd_conv)
  ultimately have "ip_to_sessions c2 = ip_to_sessions c" by simp
  with a(1,2,5) have "l2 = sid # rest" by simp
  with a(1,2) show "((K, c2\<lparr>ip_to_sessions := AList.update normalized_ip (drop 1 l2) (ip_to_sessions c2)\<rparr>,
             normalized_ip), K, c, normalized_ip)
      \<in> measure (\<lambda>(K, c, ip). case map_of (ip_to_sessions c) ip of None \<Rightarrow> 0 | Some l \<Rightarrow> length l)"
    by (simp add: update_conv')
qed

declare enforce_ip_cap.simps [simp del]


definition handle_client_ip_and_session_addition ::
  "int \<Rightarrow> 'd container \<Rightarrow> string \<Rightarrow> string option \<Rightarrow> (error + unit) \<times> 'd container" where
  "handle_client_ip_and_session_addition MAX_SESSIONS_PER_IP c identifier cip =
     (if \<not> truthy cip then (Inr (), c)
      else
        let normalized_ip = normalize_ip_for_limiting (the cip)
        in case map_of (ip_to_sessions c) normalized_ip of
             None \<Rightarrow>
               (Inr (), c\<lparr>ip_to_sessions := AList.update normalized_ip [identifier] (ip_to_sessions c)\<rparr>)
           | Some l \<Rightarrow>
               enforce_ip_cap MAX_SESSIONS_PER_IP
                 (c\<lparr>ip_to_sessions := AList.update normalized_ip (l @ [identifier]) (ip_to_sessions c)\<rparr>)
                 normalized_ip)"

definition handle_client_ip_and_session_reattribution ::
  "int \<Rightarrow> 'd container \<Rightarrow> string \<Rightarrow> string option \<Rightarrow> string \<Rightarrow> (error + unit) \<times> 'd container" where
  "handle_client_ip_and_session_reattribution MAX_SESSIONS_PER_IP c session_id
       normalized_saved_ip normalized_client_ip =
     (case map_of (index_map c) session_id of
        None \<Rightarrow> (Inl KeyError, c)
      | Some i \<Rightarrow>
          if i \<ge> length (heap c) then (Inl IndexError, c)
          else
            let c1 = c\<lparr>heap := (heap c)[i := (heap c ! i)\<lparr>client_ip := Some normalized_client_ip\<rparr>]\<rparr>;
                c2 = (if truthy normalized_saved_ip then
                        (case map_of (ip_to_sessions c1) (the normalized_saved_ip) of
                           None \<Rightarrow> c1
                         | Some l \<Rightarrow>
                             let l' = filter (\<lambda>e. e \<noteq> session_id) l
                             in if l' = [] then
                                  c1\<lparr>ip_to_sessions :=
                                       AList.delete (the normalized_saved_ip) (ip_to_sessions c1)\<rparr>
                                else
                                  c1\<lparr>ip_to_sessions :=
                                       AList.update (the normalized_saved_ip) l' (ip_to_sessions c1)\<rparr>)
                      else c1);
                cur = (case map_of (ip_to_sessions c2) normalized_client_ip of
                         None \<Rightarrow> [] | Some l \<Rightarrow> l);
                c3 = c2\<lparr>ip_to_sessions :=
                          AList.update normalized_client_ip
                            (filter (\<lambda>e. e \<noteq> session_id) cur @ [session_id]) (ip_to_sessions c2)\<rparr>
            in enforce_ip_cap MAX_SESSIONS_PER_IP c3 normalized_client_ip)"

definition handle_client_ip_and_session_priority ::
  "int \<Rightarrow> 'd container \<Rightarrow> string \<Rightarrow> string option \<Rightarrow> (error + unit) \<times> 'd container" where
  "handle_client_ip_and_session_priority MAX_SESSIONS_PER_IP c session_id cip =
     (if \<not> truthy cip then (Inr (), c)
      else
        let normalized_ip = normalize_ip_for_limiting (the cip)
        in case map_of (index_map c) session_id of
             None \<Rightarrow> (Inl KeyError, c)
           | Some i \<Rightarrow>
               if i \<ge> length (heap c) then (Inl IndexError, c)
               else
                 let saved_client_ip = client_ip (heap c ! i)
                 in if saved_client_ip = Some normalized_ip then
                      (case map_of (ip_to_sessions c) normalized_ip of
                         None \<Rightarrow>
                           (Inr (), c\<lparr>ip_to_sessions :=
                                        AList.update normalized_ip [session_id] (ip_to_sessions c)\<rparr>)
                       | Some l \<Rightarrow>
                           (Inr (), c\<lparr>ip_to_sessions :=
                                        AList.update normalized_ip
                                          (filter (\<lambda>e. e \<noteq> session_id) l @ [session_id])
                                          (ip_to_sessions c)\<rparr>))
                    else handle_client_ip_and_session_reattribution MAX_SESSIONS_PER_IP c
                           session_id saved_client_ip normalized_ip)"

subsection \<open>The public operations\<close>

definition push ::
  "int \<Rightarrow> 'd container \<Rightarrow> int \<Rightarrow> string \<Rightarrow> 'd \<Rightarrow> string option \<Rightarrow> (error + unit) \<times> 'd container" where
  "push MAX_SESSIONS_PER_IP c prio session_id d cip =
     handle_client_ip_and_session_addition MAX_SESSIONS_PER_IP
       (priv_push c prio session_id d cip) session_id cip"

definition pop :: "'d container \<Rightarrow> (error + 'd item option) \<times> 'd container" where
  "pop c =
     (case priv_pop c of
        (Inl e, c1) \<Rightarrow> (Inl e, c1)
      | (Inr None, c1) \<Rightarrow> (Inr None, c1)
      | (Inr (Some root_item), c1) \<Rightarrow>
          (Inr (Some root_item),
           handle_client_ip_and_session_eviction c1 (obj_id root_item) (client_ip root_item)))"

definition update_priority ::
  "int \<Rightarrow> 'd container \<Rightarrow> string \<Rightarrow> int \<Rightarrow> string option \<Rightarrow> (error + unit) \<times> 'd container" where
  "update_priority MAX_SESSIONS_PER_IP c oid new_priority cip =
     (case priv_update_priority c oid new_priority of
        (Inl e, c1) \<Rightarrow> (Inl e, c1)
      | (Inr _, c1) \<Rightarrow> handle_client_ip_and_session_priority MAX_SESSIONS_PER_IP c1 oid cip)"

text \<open>
  Lines 869 to 878 of \<open>get_storage\<close>: the session id to serve. The cookie id wins; else a
  bearer token whose binding names a session present in \<open>index_map\<close>; else the minted id
  (\<open>str(uuid.uuid4())\<close>, a parameter). Accepting a binding rewrites the token order list.
\<close>

definition get_storage_target ::
  "'d container \<Rightarrow> string option \<Rightarrow> string option \<Rightarrow> string \<Rightarrow> string \<times> 'd container" where
  "get_storage_target c session_id_from_cookie jwt_token uuid4 =
     (let (target_session_id, c1) =
            (if \<not> truthy session_id_from_cookie \<and> truthy jwt_token then
               (let session_id_from_token = map_of (jwt_to_session c) (the jwt_token)
                in if truthy session_id_from_token \<and>
                      the session_id_from_token \<in> fst ` set (index_map c)
                   then (session_id_from_token,
                         c\<lparr>jwt_to_session_order :=
                              filter (\<lambda>e. e \<noteq> the session_id_from_token) (jwt_to_session_order c)
                              @ [the jwt_token]\<rparr>)
                   else (session_id_from_cookie, c))
             else (session_id_from_cookie, c))
      in (if truthy target_session_id then the target_session_id else uuid4, c1))"

text \<open>
  \<open>get_storage\<close>. \<open>time_ns()\<close>, the minted uuid and the freshly built \<open>InMemoryStorage()\<close>
  are parameters (\<open>now\<close>, \<open>uuid4\<close>, \<open>new_storage\<close>). In non-isolated mode the first call
  puts the shared storage in slot 0 of the source's heap and every call hands it out; that
  branch is modelled for a heap without entries, which is what a non-isolated server has
  (with entries in the heap the source would hand out \<open>heap[0]\<close>, an entry, as the storage).
\<close>

definition get_storage ::
  "int \<Rightarrow> 'd container \<Rightarrow> string option \<Rightarrow> string option \<Rightarrow> string option \<Rightarrow>
   string \<Rightarrow> int \<Rightarrow> 'd \<Rightarrow> (error + string option \<times> 'd) \<times> 'd container" where
  "get_storage MAX_SESSIONS_PER_IP c session_id_from_cookie cip jwt_token uuid4 now new_storage =
     (if DISABLE_ISOLATION_MODE c then
        (case shared_storage c of
           None \<Rightarrow> (Inr (None, new_storage), c\<lparr>shared_storage := Some new_storage\<rparr>)
         | Some s \<Rightarrow> (Inr (None, s), c))
      else
        let (target_session_id, c1) = get_storage_target c session_id_from_cookie jwt_token uuid4
        in case map_of (index_map c1) target_session_id of
             None \<Rightarrow>
               (case (if int (length (index_map c1)) \<ge> MAX_SESSIONS c1 then pop c1
                      else (Inr None, c1)) of
                  (Inl e, c2) \<Rightarrow> (Inl e, c2)
                | (Inr _, c2) \<Rightarrow>
                    (case push MAX_SESSIONS_PER_IP c2 now target_session_id new_storage cip of
                       (Inl e, c3) \<Rightarrow> (Inl e, c3)
                     | (Inr _, c3) \<Rightarrow>
                         (case map_of (index_map c3) target_session_id of
                            None \<Rightarrow> (Inl TypeError, c3)
                          | Some i \<Rightarrow>
                              if i \<ge> length (heap c3) then (Inl IndexError, c3)
                              else (Inr (Some target_session_id, data (heap c3 ! i)), c3))))
           | Some storage_container_index \<Rightarrow>
               if storage_container_index \<ge> length (heap c1) then (Inl IndexError, c1)
               else
                 let r = data (heap c1 ! storage_container_index)
                 in case update_priority MAX_SESSIONS_PER_IP c1 target_session_id now cip of
                      (Inl e, c2) \<Rightarrow> (Inl e, c2)
                    | (Inr _, c2) \<Rightarrow> (Inr (Some target_session_id, r), c2))"

text \<open>
  \<open>bind_jwt_to_session_id\<close>. The tokens to remove form a Python set; deleting them raises
  \<open>KeyError\<close> when the oldest token of the order list is not a key of \<open>jwt_to_session\<close>.
  Which deletions precede that error depends on the iteration order of the set, which
  Python leaves open; the model raises before any deletion.
\<close>

definition bind_jwt_to_session_id ::
  "'d container \<Rightarrow> string \<Rightarrow> string \<Rightarrow> (error + unit) \<times> 'd container" where
  "bind_jwt_to_session_id c jwt_token session_id =
     (if DISABLE_ISOLATION_MODE c then (Inr (), c)
      else
        let matching = map fst (filter (\<lambda>(t, s). t = jwt_token \<or> s = session_id) (jwt_to_session c))
        in if int (length (jwt_to_session_order c)) \<ge> MAX_SESSIONS c \<and> jwt_to_session_order c = []
           then (Inl IndexError, c)
           else
             let jwt_tokens_to_remove =
                   (if int (length (jwt_to_session_order c)) \<ge> MAX_SESSIONS c
                    then hd (jwt_to_session_order c) # matching else matching);
                 c1 = c\<lparr>jwt_to_session_order :=
                          filter (\<lambda>t. t \<notin> set jwt_tokens_to_remove) (jwt_to_session_order c)\<rparr>
             in if \<not> set jwt_tokens_to_remove \<subseteq> fst ` set (jwt_to_session c1) then (Inl KeyError, c1)
                else
                  (Inr (),
                   c1\<lparr>jwt_to_session :=
                        AList.update jwt_token session_id
                          (filter (\<lambda>(t, s). t \<notin> set jwt_tokens_to_remove) (jwt_to_session c1)),
                      jwt_to_session_order := jwt_to_session_order c1 @ [jwt_token]\<rparr>))"


subsection \<open>The heap stays well formed under the public operations\<close>

lemma heap_inv_cong:
  "heap c' = heap c \<Longrightarrow> index_map c' = index_map c \<Longrightarrow> heap_inv c' = heap_inv c"
  by (simp add: heap_inv_def index_inv_def index_synced_def index_exact_def)

lemma heap_inv_ip_to_sessions [simp]: "heap_inv (c\<lparr>ip_to_sessions := x\<rparr>) = heap_inv c"
  by (rule heap_inv_cong) simp_all

lemma heap_inv_order [simp]: "heap_inv (c\<lparr>jwt_to_session_order := x\<rparr>) = heap_inv c"
  by (rule heap_inv_cong) simp_all

lemma heap_inv_jwt [simp]: "heap_inv (c\<lparr>jwt_to_session := x\<rparr>) = heap_inv c"
  by (rule heap_inv_cong) simp_all

lemma heap_inv_set_client_ip:
  assumes "heap_inv c" "i < length (heap c)"
  shows "heap_inv (c\<lparr>heap := (heap c)[i := (heap c ! i)\<lparr>client_ip := x\<rparr>]\<rparr>)"
proof -
  let ?h = "(heap c)[i := (heap c ! i)\<lparr>client_ip := x\<rparr>]"
  have e: "priority (?h ! k) = priority (heap c ! k) \<and> obj_id (?h ! k) = obj_id (heap c ! k) \<and>
           index (?h ! k) = index (heap c ! k)" for k
    using assms(2) by (cases "k = i") simp_all
  from assms(1) show ?thesis
    unfolding heap_inv_def heap_property_def index_inv_def index_synced_def index_exact_def
    by (simp add: e)
qed

lemma heap_inv_enforce_ip_cap:
  "heap_inv c \<Longrightarrow> heap_inv (snd (enforce_ip_cap K c ip))"
proof (induction K c ip rule: enforce_ip_cap.induct)
  case (1 K c ip)
  show ?case
  proof (cases "map_of (ip_to_sessions c) ip")
    case None
    with "1.prems" show ?thesis by (subst enforce_ip_cap.simps) simp
  next
    case (Some l)
    show ?thesis
    proof (cases "int (length l) > K")
      case False
      with Some "1.prems" show ?thesis by (subst enforce_ip_cap.simps) simp
    next
      case True
      show ?thesis
      proof (cases l)
        case Nil
        with Some True "1.prems" show ?thesis by (subst enforce_ip_cap.simps) simp
      next
        case (Cons sid rest)
        obtain r1 c1 where u: "priv_update_priority c sid 0 = (r1, c1)" by (cases "priv_update_priority c sid 0")
        obtain r2 c2 where p: "priv_pop c1 = (r2, c2)" by (cases "priv_pop c1")
        have i1: "heap_inv c1" using heap_inv_update_priority [OF "1.prems", of sid 0] u by simp
        have i2: "heap_inv c2" using heap_inv_pop [OF i1] p by simp
        have ips: "ip_to_sessions c2 = ip_to_sessions c"
          using update_priority_frame(1) [of c sid 0] pop_frame(1) [of c1] u p by simp
        show ?thesis
        proof (cases r1)
          case (Inl e)
          with Some True Cons u i1 show ?thesis by (subst enforce_ip_cap.simps) simp
        next
          case r1: (Inr x1)
          show ?thesis
          proof (cases r2)
            case (Inl e)
            with Some True Cons u p r1 i2 show ?thesis by (subst enforce_ip_cap.simps) simp
          next
            case r2: (Inr x2)
            have "heap_inv (c2\<lparr>ip_to_sessions := AList.update ip (drop 1 l) (ip_to_sessions c2)\<rparr>)"
              using i2 by simp
            from "1.IH" [OF Some True Cons u [symmetric] r1 p [symmetric] r2 _ this] ips Some
            show ?thesis
              using Some True Cons u p r1 r2 by (subst enforce_ip_cap.simps) simp
          qed
        qed
      qed
    qed
  qed
qed

lemma heap_inv_addition:
  "heap_inv c \<Longrightarrow> heap_inv (snd (handle_client_ip_and_session_addition K c sid ip))"
  by (simp add: handle_client_ip_and_session_addition_def Let_def heap_inv_enforce_ip_cap
      split: option.splits)

lemma heap_inv_eviction:
  "heap_inv c \<Longrightarrow> heap_inv (handle_client_ip_and_session_eviction c sid ip)"
  by (simp add: handle_client_ip_and_session_eviction_def Let_def split: option.splits)

lemma heap_inv_reattribution:
  assumes "heap_inv c"
  shows "heap_inv (snd (handle_client_ip_and_session_reattribution K c sid saved ip))"
proof (cases "map_of (index_map c) sid")
  case None
  with assms show ?thesis by (simp add: handle_client_ip_and_session_reattribution_def)
next
  case (Some i)
  show ?thesis
  proof (cases "i \<ge> length (heap c)")
    case True
    with Some assms show ?thesis by (simp add: handle_client_ip_and_session_reattribution_def)
  next
    case False
    then have il: "i < length (heap c)" by simp
    note h1 = heap_inv_set_client_ip [OF assms il, of "Some ip"]
    show ?thesis
      using Some False h1
      by (simp add: handle_client_ip_and_session_reattribution_def Let_def heap_inv_enforce_ip_cap
          split: option.splits)
  qed
qed

lemma heap_inv_priority:
  "heap_inv c \<Longrightarrow> heap_inv (snd (handle_client_ip_and_session_priority K c sid ip))"
  by (simp add: handle_client_ip_and_session_priority_def Let_def heap_inv_reattribution
      split: option.splits)

lemma heap_inv_public_push:
  "heap_inv c \<Longrightarrow> sid \<notin> fst ` set (index_map c) \<Longrightarrow> heap_inv (snd (push K c p sid d ip))"
  unfolding push_def by (intro heap_inv_addition heap_inv_push)

lemma heap_inv_public_pop: "heap_inv c \<Longrightarrow> heap_inv (snd (pop c))"
proof -
  assume inv: "heap_inv c"
  obtain r c1 where p: "priv_pop c = (r, c1)" by (cases "priv_pop c")
  with heap_inv_pop [OF inv] have "heap_inv c1" by simp
  with p show ?thesis
    by (simp add: pop_def heap_inv_eviction split: sum.splits option.splits)
qed

lemma heap_inv_public_update_priority:
  "heap_inv c \<Longrightarrow> heap_inv (snd (update_priority K c sid p ip))"
proof -
  assume inv: "heap_inv c"
  obtain r c1 where u: "priv_update_priority c sid p = (r, c1)" by (cases "priv_update_priority c sid p")
  with heap_inv_update_priority [OF inv, of sid p] have "heap_inv c1" by simp
  with u show ?thesis
    by (simp add: update_priority_def heap_inv_priority split: sum.splits)
qed

lemma heap_inv_new_container: "heap_inv (new_container dis ms)"
  by (simp add: new_container_def heap_inv_def heap_property_def index_inv_def index_synced_def
      index_exact_def)


subsection \<open>Sequences of public heap operations\<close>

datatype 'd container_op =
    Push int string 'd "string option"
  | Pop
  | UpdatePriority string int "string option"

fun apply_op :: "int \<Rightarrow> 'd container \<Rightarrow> 'd container_op \<Rightarrow> 'd container" where
  "apply_op K c (Push prio sid d cip) = snd (push K c prio sid d cip)"
| "apply_op K c Pop = snd (pop c)"
| "apply_op K c (UpdatePriority sid prio cip) = snd (update_priority K c sid prio cip)"

fun run_ops :: "int \<Rightarrow> 'd container \<Rightarrow> 'd container_op list \<Rightarrow> 'd container" where
  "run_ops K c [] = c"
| "run_ops K c (x # xs) = run_ops K (apply_op K c x) xs"

text \<open>Every \<open>push\<close> of the sequence is given a session id that is not in the index map then.\<close>

fun pushes_fresh :: "int \<Rightarrow> 'd container \<Rightarrow> 'd container_op list \<Rightarrow> bool" where
  "pushes_fresh K c [] = True"
| "pushes_fresh K c (x # xs) =
     ((case x of Push prio sid d cip \<Rightarrow> sid \<notin> fst ` set (index_map c) | _ \<Rightarrow> True) \<and>
      pushes_fresh K (apply_op K c x) xs)"

lemma heap_inv_run_ops:
  "heap_inv c \<Longrightarrow> pushes_fresh K c ops \<Longrightarrow> heap_inv (run_ops K c ops)"
proof (induction ops arbitrary: c)
  case Nil
  then show ?case by simp
next
  case (Cons x xs)
  have "heap_inv (apply_op K c x)"
  proof (cases x)
    case (Push prio sid d cip)
    with Cons.prems show ?thesis by (simp add: heap_inv_public_push)
  next
    case Pop
    with Cons.prems show ?thesis by (simp add: heap_inv_public_pop)
  next
    case (UpdatePriority sid prio cip)
    with Cons.prems show ?thesis by (simp add: heap_inv_public_update_priority)
  qed
  with Cons show ?case by simp
qed

text \<open>
  Claim C1, as amended. In every state reached from a fresh container by \<open>push\<close>, \<open>pop\<close> and
  \<open>update_priority\<close>, where every \<open>push\<close> is given a session id that is not in the index map
  at that moment, the heap array is a min-heap (each entry against both children), every
  stored entry is found by its id at its own position, its position field agrees, and the
  index map has no other keys. This covers the states a raising call leaves behind.
\<close>

theorem C1_heap_invariant:
  assumes "StorageContainer_init K dis ms = Inr c0" and "pushes_fresh K c0 ops"
  shows "heap_property (heap (run_ops K c0 ops)) \<and> index_synced (run_ops K c0 ops) \<and>
         index_exact (run_ops K c0 ops)"
proof -
  from assms(1) have "c0 = new_container dis ms"
    by (simp add: StorageContainer_init_def split: if_splits)
  then have "heap_inv c0" by (simp add: heap_inv_new_container)
  from heap_inv_run_ops [OF this assms(2)] show ?thesis
    by (simp add: heap_inv_def index_inv_def)
qed


theorem C1_heap_invariant_witness:
  "StorageContainer_init 30 False 3000 = Inr (new_container False 3000 :: unit container) \<and>
   pushes_fresh 30 (new_container False 3000 :: unit container)
     [Push 10 ''a'' () None, Push 5 ''b'' () None, Push 15 ''c'' () None, Push 3 ''d'' () None,
      Pop, UpdatePriority ''c'' 1 None] \<and>
   heap_property (heap (run_ops 30 (new_container False 3000 :: unit container)
     [Push 10 ''a'' () None, Push 5 ''b'' () None, Push 15 ''c'' () None, Push 3 ''d'' () None,
      Pop, UpdatePriority ''c'' 1 None])) \<and>
   index_synced (run_ops 30 (new_container False 3000 :: unit container)
     [Push 10 ''a'' () None, Push 5 ''b'' () None, Push 15 ''c'' () None, Push 3 ''d'' () None,
      Pop, UpdatePriority ''c'' 1 None]) \<and>
   map obj_id (heap (run_ops 30 (new_container False 3000 :: unit container)
     [Push 10 ''a'' () None, Push 5 ''b'' () None, Push 15 ''c'' () None, Push 3 ''d'' () None,
      Pop, UpdatePriority ''c'' 1 None])) = [''c'', ''a'', ''b'']"
proof -
  let ?c = "new_container False 3000 :: unit container"
  let ?ops = "[Push 10 ''a'' () None, Push 5 ''b'' () None, Push 15 ''c'' () None,
               Push 3 ''d'' () None, Pop, UpdatePriority ''c'' 1 None]"
  have i: "StorageContainer_init 30 False 3000 = Inr ?c"
    by (simp add: StorageContainer_init_def)
  have f: "pushes_fresh 30 ?c ?ops" by code_simp
  have m: "map obj_id (heap (run_ops 30 ?c ?ops)) = [''c'', ''a'', ''b'']" by code_simp
  from C1_heap_invariant [OF i f] i f m show ?thesis by blast
qed

theorem C1_duplicate_push_counterexample:
  "\<not> (heap_property (heap (run_ops 30 (new_container False 3000 :: unit container)
          [Push 1 ''a'' () None, Push 2 ''a'' () None])) \<and>
      index_synced (run_ops 30 (new_container False 3000 :: unit container)
          [Push 1 ''a'' () None, Push 2 ''a'' () None]))"
proof -
  let ?c = "run_ops 30 (new_container False 3000 :: unit container)
          [Push 1 ''a'' () None, Push 2 ''a'' () None]"
  have l: "0 < length (heap ?c)" by code_simp
  have m: "map_of (index_map ?c) (obj_id (heap ?c ! 0)) = Some 1" by code_simp
  have "\<not> index_synced ?c"
  proof
    assume "index_synced ?c"
    with l have "map_of (index_map ?c) (obj_id (heap ?c ! 0)) = Some 0"
      unfolding index_synced_def by blast
    with m show False by simp
  qed
  then show ?thesis by blast
qed


subsection \<open>The sessions a heap holds\<close>

text \<open>A stored session without its position: id, priority, payload and client address.\<close>

definition session_of :: "'d item \<Rightarrow> string \<times> int \<times> 'd \<times> string option" where
  "session_of it = (obj_id it, priority it, data it, client_ip it)"

definition sessions :: "'d container \<Rightarrow> (string \<times> int \<times> 'd \<times> string option) multiset" where
  "sessions c = mset (map session_of (heap c))"

lemma session_of_index [simp]: "session_of (it\<lparr>index := n\<rparr>) = session_of it"
  by (simp add: session_of_def)

lemma sessions_swap:
  assumes "i < length (heap c)" "j < length (heap c)"
  shows "sessions (priv_swap c i j) = sessions c"
proof -
  let ?m = "map session_of (heap c)"
  have "map session_of (heap (priv_swap c i j)) = ?m[i := ?m ! j, j := ?m ! i]"
    using assms by (simp add: priv_swap_def Let_def map_update)
  moreover have "mset (?m[i := ?m ! j, j := ?m ! i]) = mset ?m"
    using assms by (intro mset_swap) simp_all
  ultimately show ?thesis by (simp add: sessions_def)
qed

lemma sessions_sift_up: "i < length (heap c) \<Longrightarrow> sessions (priv_sift_up c i) = sessions c"
proof (induction c i rule: priv_sift_up.induct)
  case (1 c i)
  show ?case
  proof (cases "0 < i \<and> \<not> priority (heap c ! i) \<ge> priority (heap c ! ((i - 1) div 2))")
    case False
    then show ?thesis by (subst priv_sift_up.simps) (auto simp: Let_def)
  next
    case True
    then have pl: "(i - 1) div 2 < length (heap c)" using "1.prems" parent_lt [of i] by simp
    have "sessions (priv_swap c i ((i - 1) div 2)) = sessions c"
      by (rule sessions_swap [OF "1.prems" pl])
    with True "1.IH" [OF _ refl] pl show ?thesis
      by (subst priv_sift_up.simps) (simp add: Let_def)
  qed
qed

lemma sessions_sift_down: "i < length (heap c) \<Longrightarrow> sessions (priv_sift_down c i) = sessions c"
proof (induction c i rule: priv_sift_down.induct)
  case (1 c i)
  show ?case
  proof (cases "smallest_of (heap c) i = i")
    case True
    then show ?thesis by (subst priv_sift_down.simps) (simp add: Let_def)
  next
    case False
    from smallest_of_parent [OF False] have sl: "smallest_of (heap c) i < length (heap c)" by simp
    have "sessions (priv_swap c i (smallest_of (heap c) i)) = sessions c"
      by (rule sessions_swap [OF "1.prems" sl])
    with False "1.IH" [OF refl False] sl show ?thesis
      by (subst priv_sift_down.simps) (simp add: Let_def)
  qed
qed

lemma sessions_push:
  "sessions (priv_push c prio oid d ip) = add_mset (oid, prio, d, ip) (sessions c)"
proof -
  let ?it = "\<lparr>priority = prio, obj_id = oid, data = d, index = length (heap c), client_ip = ip\<rparr>"
  let ?c1 = "c\<lparr>heap := heap c @ [?it], index_map := AList.update oid (length (heap c)) (index_map c)\<rparr>"
  have "sessions (priv_sift_up ?c1 (length (heap c))) = sessions ?c1"
    by (rule sessions_sift_up) simp
  then show ?thesis by (simp add: priv_push_def Let_def sessions_def session_of_def)
qed

lemma sessions_pop:
  assumes "fst (priv_pop c) = Inr (Some it)"
  shows "it = heap c ! 0 \<and> heap c \<noteq> [] \<and>
         add_mset (session_of it) (sessions (snd (priv_pop c))) = sessions c"
proof (cases "heap c")
  case Nil
  with assms priv_pop_returns [OF assms] show ?thesis by simp
next
  case (Cons r rs)
  note un = priv_pop_returns [OF assms]
  with Cons assms have rin: "obj_id r \<in> fst ` set (index_map c)" and it: "it = r"
    by (auto simp: priv_pop_def Let_def split: if_splits)
  show ?thesis
  proof (cases "rs = []")
    case True
    with Cons rin it un show ?thesis by (simp add: priv_pop_def Let_def sessions_def)
  next
    case False
    let ?l = "last (heap c)"
    let ?h2 = "(butlast (heap c))[0 := ?l\<lparr>index := 0\<rparr>]"
    let ?c2 = "c\<lparr>heap := ?h2,
                 index_map := AList.update (obj_id ?l) 0 (AList.delete (obj_id r) (index_map c))\<rparr>"
    have zl: "0 < length (heap ?c2)" using Cons False by (cases rs) simp_all
    have sd: "sessions (priv_sift_down ?c2 0) = sessions ?c2" by (rule sessions_sift_down [OF zl])
    have h2: "?h2 = ?l\<lparr>index := 0\<rparr> # butlast rs" using Cons False by simp
    have "mset (map session_of (heap c)) = add_mset (session_of r) (mset (map session_of rs))"
      using Cons by simp
    also have "mset (map session_of rs) = add_mset (session_of (last rs)) (mset (map session_of (butlast rs)))"
    proof -
      have "mset (map session_of (butlast rs @ [last rs]))
            = add_mset (session_of (last rs)) (mset (map session_of (butlast rs)))"
        by simp
      then show ?thesis using False by simp
    qed
    finally have "sessions c = add_mset (session_of r) (sessions ?c2)"
      using Cons False by (simp add: sessions_def h2)
    with sd Cons False rin it un show ?thesis
      by (simp add: priv_pop_def Let_def)
  qed
qed

lemma sessions_update_priority:
  assumes "map_of (index_map c) oid = Some i" "i < length (heap c)"
  shows "fst (priv_update_priority c oid p) = Inr () \<and>
         sessions (snd (priv_update_priority c oid p)) =
           add_mset (session_of ((heap c ! i)\<lparr>priority := p\<rparr>))
             (sessions c - {#session_of (heap c ! i)#})"
proof -
  let ?h1 = "(heap c)[i := (heap c ! i)\<lparr>priority := p\<rparr>]"
  let ?c1 = "c\<lparr>heap := ?h1\<rparr>"
  have l1: "i < length (heap ?c1)" using assms(2) by simp
  have s1: "sessions ?c1 = add_mset (session_of ((heap c ! i)\<lparr>priority := p\<rparr>))
             (sessions c - {#session_of (heap c ! i)#})"
    using assms(2) by (simp add: sessions_def map_update mset_update)
  show ?thesis
  proof (cases "p = priority (heap c ! i)")
    case True
    then have "?h1 = heap c" by (simp add: list_update_same_conv assms(2))
    moreover have "session_of (heap c ! i) \<in># sessions c"
      unfolding sessions_def using assms(2) by (metis length_map nth_map nth_mem_mset)
    ultimately show ?thesis using assms True
      by (simp add: priv_update_priority_def Let_def)
  next
    case False
    then show ?thesis
      using assms s1 sessions_sift_up [OF l1] sessions_sift_down [OF l1]
      by (simp add: priv_update_priority_def Let_def)
  qed
qed

lemma root_is_minimum:
  assumes "heap_property h" "k < length h"
  shows "priority (h ! 0) \<le> priority (h ! k)"
  using assms(2)
proof (induction k rule: less_induct)
  case (less k)
  show ?case
  proof (cases "k = 0")
    case True then show ?thesis by simp
  next
    case False
    then have pk: "(k - 1) div 2 < k" by (intro parent_lt) simp
    with less.prems have "(k - 1) div 2 < length h" by simp
    from less.IH [OF pk this] have "priority (h ! 0) \<le> priority (h ! ((k - 1) div 2))" .
    moreover from assms(1) False less.prems have "parent_ok h k"
      unfolding heap_property_parent by simp
    ultimately show ?thesis unfolding parent_ok_def by simp
  qed
qed


lemma session_nth_in: "i < length (heap c) \<Longrightarrow> session_of (heap c ! i) \<in># sessions c"
  unfolding sessions_def by (metis length_map nth_map nth_mem_mset)

lemma session_in_nth:
  assumes "s \<in># sessions c"
  shows "\<exists>i < length (heap c). session_of (heap c ! i) = s"
proof -
  from assms have "s \<in> set (map session_of (heap c))" by (simp add: sessions_def)
  then show ?thesis by (auto simp: in_set_conv_nth)
qed

lemma size_sessions [simp]: "size (sessions c) = length (heap c)"
  by (simp add: sessions_def)

lemma key_iff_session:
  assumes "index_inv c"
  shows "k \<in> fst ` set (index_map c) \<longleftrightarrow> k \<in> fst ` set_mset (sessions c)"
proof -
  have "k \<in> fst ` set_mset (sessions c) \<longleftrightarrow> (\<exists>i < length (heap c). obj_id (heap c ! i) = k)"
  proof
    assume "k \<in> fst ` set_mset (sessions c)"
    then obtain s where "s \<in># sessions c" "fst s = k" by auto
    with session_in_nth [of s c] show "\<exists>i < length (heap c). obj_id (heap c ! i) = k"
      by (auto simp: session_of_def)
  next
    assume "\<exists>i < length (heap c). obj_id (heap c ! i) = k"
    then obtain i where i: "i < length (heap c)" "obj_id (heap c ! i) = k" by blast
    from session_nth_in [OF i(1)] i(2) show "k \<in> fst ` set_mset (sessions c)"
      by (force simp: session_of_def)
  qed
  with index_inv_key_iff [OF assms, of k] show ?thesis by simp
qed

lemma length_index_map:
  assumes "index_inv c"
  shows "length (index_map c) = length (heap c)"
proof -
  let ?n = "length (heap c)"
  from assms have d: "distinct (map fst (index_map c))"
    unfolding index_inv_def index_exact_def by blast
  have keys: "fst ` set (index_map c) = (\<lambda>i. obj_id (heap c ! i)) ` {..<?n}"
  proof (rule set_eqI)
    fix k
    have "k \<in> (\<lambda>i. obj_id (heap c ! i)) ` {..<?n} \<longleftrightarrow> (\<exists>i < ?n. obj_id (heap c ! i) = k)"
      by auto
    with index_inv_key_iff [OF assms, of k]
    show "k \<in> fst ` set (index_map c) \<longleftrightarrow> k \<in> (\<lambda>i. obj_id (heap c ! i)) ` {..<?n}"
      by simp
  qed
  have inj: "inj_on (\<lambda>i. obj_id (heap c ! i)) {..<?n}"
    using index_inv_ids [OF assms] by (auto simp: inj_on_def)
  have "length (index_map c) = card (set (map fst (index_map c)))"
    using d by (metis distinct_card length_map)
  also have "\<dots> = card ((\<lambda>i. obj_id (heap c ! i)) ` {..<?n})" using keys by simp
  also have "\<dots> = ?n" using inj by (simp add: card_image)
  finally show ?thesis .
qed

text \<open>All stored priorities are positive, as \<open>time_ns()\<close> values are.\<close>

definition all_positive :: "'d container \<Rightarrow> bool" where
  "all_positive c \<longleftrightarrow> (\<forall>s \<in># sessions c. 0 < fst (snd s))"

text \<open>
  Forced eviction, the pair of calls \<open>_update_priority(sid, 0)\<close> and \<open>_pop()\<close>: when every
  stored priority is positive, the popped root is the session \<open>sid\<close> itself.
\<close>

lemma forced_eviction:
  assumes inv: "heap_inv c" and pos: "all_positive c"
    and key: "map_of (index_map c) sid = Some i" and un: "shared_storage c = None"
  shows "fst (priv_update_priority c sid 0) = Inr () \<and>
         fst (priv_pop (snd (priv_update_priority c sid 0)))
           = Inr (Some ((heap (snd (priv_update_priority c sid 0))) ! 0)) \<and>
         obj_id ((heap (snd (priv_update_priority c sid 0))) ! 0) = sid \<and>
         sessions (snd (priv_pop (snd (priv_update_priority c sid 0))))
           = sessions c - {#session_of (heap c ! i)#} \<and>
         obj_id (heap c ! i) = sid \<and> i < length (heap c)"
proof -
  let ?c1 = "snd (priv_update_priority c sid 0)"
  let ?c2 = "snd (priv_pop ?c1)"
  let ?old = "session_of (heap c ! i)"
  let ?new = "session_of ((heap c ! i)\<lparr>priority := 0\<rparr>)"
  from inv have ii: "index_inv c" by (simp add: heap_inv_def)
  from ii key have il: "i < length (heap c)" and oi: "obj_id (heap c ! i) = sid"
    unfolding index_inv_def index_exact_def by blast+
  note u = sessions_update_priority [OF key il, of 0]
  have s1: "sessions ?c1 = add_mset ?new (sessions c - {#?old#})" using u by simp
  have i1: "heap_inv ?c1" by (rule heap_inv_update_priority [OF inv])
  have ne1: "heap ?c1 \<noteq> []"
  proof
    assume "heap ?c1 = []"
    then have "size (sessions ?c1) = 0" by simp
    with s1 show False by simp
  qed
  then have z1: "0 < length (heap ?c1)" by simp
  have "?new \<in># sessions ?c1" using s1 by simp
  from session_in_nth [OF this] obtain k where k: "k < length (heap ?c1)"
    "session_of (heap ?c1 ! k) = ?new" by blast
  then have "priority (heap ?c1 ! k) = 0" by (simp add: session_of_def)
  moreover from i1 have "priority (heap ?c1 ! 0) \<le> priority (heap ?c1 ! k)"
    unfolding heap_inv_def using root_is_minimum [OF _ k(1)] by blast
  ultimately have r0: "priority (heap ?c1 ! 0) \<le> 0" by simp
  have "session_of (heap ?c1 ! 0) \<in># sessions ?c1" by (rule session_nth_in [OF z1])
  then have "session_of (heap ?c1 ! 0) = ?new \<or> session_of (heap ?c1 ! 0) \<in># sessions c"
    unfolding s1 by (auto dest: in_diffD)
  then have rn: "session_of (heap ?c1 ! 0) = ?new"
  proof
    assume "session_of (heap ?c1 ! 0) \<in># sessions c"
    with pos have "0 < fst (snd (session_of (heap ?c1 ! 0)))" unfolding all_positive_def by blast
    with r0 show ?thesis by (simp add: session_of_def)
  qed simp
  then have rid: "obj_id (heap ?c1 ! 0) = sid" using oi by (simp add: session_of_def)
  have un1: "shared_storage ?c1 = None" using un by simp
  have p: "fst (priv_pop ?c1) = Inr (Some (heap ?c1 ! 0))" by (rule priv_pop_result [OF i1 ne1 un1])
  from sessions_pop [OF p] have "add_mset (session_of (heap ?c1 ! 0)) (sessions ?c2) = sessions ?c1"
    by simp
  with rn s1 have "sessions ?c2 = sessions c - {#?old#}" by simp
  with u p rid oi il show ?thesis by simp
qed


subsection \<open>\<open>push\<close> with and without a forced eviction\<close>

lemma enforce_ip_cap_within:
  assumes "map_of (ip_to_sessions c) nip = Some l" "int (length l) \<le> K"
  shows "enforce_ip_cap K c nip = (Inr (), c)"
  using assms by (subst enforce_ip_cap.simps) simp

text \<open>What the address list of one address is, \<open>[]\<close> when the address has no entry.\<close>

definition sessions_of_ip :: "'d container \<Rightarrow> string \<Rightarrow> string list" where
  "sessions_of_ip c nip = (case map_of (ip_to_sessions c) nip of None \<Rightarrow> [] | Some l \<Rightarrow> l)"

lemma push_no_eviction:
  assumes inv: "heap_inv c" and fresh: "sid \<notin> fst ` set (index_map c)"
    and ip: "truthy cip" and room: "int (length (sessions_of_ip c (normalize_ip_for_limiting (the cip)))) < K"
  shows "fst (push K c prio sid d cip) = Inr () \<and>
         heap_inv (snd (push K c prio sid d cip)) \<and>
         sessions (snd (push K c prio sid d cip)) = add_mset (sid, prio, d, cip) (sessions c) \<and>
         ip_to_sessions (snd (push K c prio sid d cip)) =
           AList.update (normalize_ip_for_limiting (the cip))
             (sessions_of_ip c (normalize_ip_for_limiting (the cip)) @ [sid]) (ip_to_sessions c)"
proof -
  let ?nip = "normalize_ip_for_limiting (the cip)"
  let ?c1 = "priv_push c prio sid d cip"
  have i1: "heap_inv ?c1" by (rule heap_inv_push [OF inv fresh])
  have s1: "sessions ?c1 = add_mset (sid, prio, d, cip) (sessions c)" by (rule sessions_push)
  show ?thesis
  proof (cases "map_of (ip_to_sessions c) ?nip")
    case None
    with ip i1 s1 show ?thesis
      by (simp add: push_def handle_client_ip_and_session_addition_def Let_def sessions_of_ip_def
          sessions_def)
  next
    case (Some l)
    let ?c2 = "?c1\<lparr>ip_to_sessions := AList.update ?nip (l @ [sid]) (ip_to_sessions ?c1)\<rparr>"
    have "map_of (ip_to_sessions ?c2) ?nip = Some (l @ [sid])" by (simp add: update_conv')
    moreover have "int (length (l @ [sid])) \<le> K" using room Some by (simp add: sessions_of_ip_def)
    ultimately have "enforce_ip_cap K ?c2 ?nip = (Inr (), ?c2)" by (rule enforce_ip_cap_within)
    with Some ip i1 s1 show ?thesis
      by (simp add: push_def handle_client_ip_and_session_addition_def Let_def sessions_of_ip_def
          sessions_def)
  qed
qed

lemma push_no_address:
  assumes inv: "heap_inv c" and fresh: "sid \<notin> fst ` set (index_map c)" and ip: "\<not> truthy cip"
  shows "fst (push K c prio sid d cip) = Inr () \<and>
         heap_inv (snd (push K c prio sid d cip)) \<and>
         sessions (snd (push K c prio sid d cip)) = add_mset (sid, prio, d, cip) (sessions c) \<and>
         ip_to_sessions (snd (push K c prio sid d cip)) = ip_to_sessions c"
  using heap_inv_push [OF inv fresh, of prio d cip] sessions_push [of c prio sid d cip] ip
  by (simp add: push_def handle_client_ip_and_session_addition_def)

lemma all_positive_add:
  "all_positive c \<Longrightarrow> 0 < p \<Longrightarrow> sessions c' = add_mset (sid, p, d, cip) (sessions c) \<Longrightarrow> all_positive c'"
  by (auto simp: all_positive_def)

lemma all_positive_sub:
  "all_positive c \<Longrightarrow> sessions c' = sessions c - X \<Longrightarrow> all_positive c'"
  by (auto simp: all_positive_def dest: in_diffD)

text \<open>
  The address list is full: the push appends the new session, and one pass of the loop
  evicts the first session of the list from the heap and from the list.
\<close>

lemma push_one_eviction:
  assumes inv: "heap_inv c" and pos: "all_positive c" and now: "0 < prio"
    and fresh: "sid \<notin> fst ` set (index_map c)"
    and ip: "truthy cip"
    and full: "sessions_of_ip c (normalize_ip_for_limiting (the cip)) = x # rest"
              "int (length (x # rest)) = K"
    and live: "x \<in> fst ` set (index_map c)"
    and un: "shared_storage c = None"
  shows "fst (push K c prio sid d cip) = Inr () \<and>
         heap_inv (snd (push K c prio sid d cip)) \<and>
         (\<exists>xs. xs \<in># sessions c \<and> fst xs = x \<and>
            sessions (snd (push K c prio sid d cip)) = add_mset (sid, prio, d, cip) (sessions c) - {#xs#}) \<and>
         ip_to_sessions (snd (push K c prio sid d cip)) =
           AList.update (normalize_ip_for_limiting (the cip)) (rest @ [sid]) (ip_to_sessions c)"
proof -
  let ?nip = "normalize_ip_for_limiting (the cip)"
  let ?c1 = "priv_push c prio sid d cip"
  have i1: "heap_inv ?c1" by (rule heap_inv_push [OF inv fresh])
  have s1: "sessions ?c1 = add_mset (sid, prio, d, cip) (sessions c)" by (rule sessions_push)
  have p1: "all_positive ?c1" by (rule all_positive_add [OF pos now s1])
  from full(1) have look: "map_of (ip_to_sessions c) ?nip = Some (x # rest)"
    by (simp add: sessions_of_ip_def split: option.splits)
  let ?c2 = "?c1\<lparr>ip_to_sessions := AList.update ?nip (x # rest @ [sid]) (ip_to_sessions c)\<rparr>"
  have i2: "heap_inv ?c2" using i1 by simp
  have s2: "sessions ?c2 = sessions ?c1" by (simp add: sessions_def)
  have p2: "all_positive ?c2" using p1 s2 by (simp add: all_positive_def)
  have im2: "index_map ?c2 = index_map ?c1" "heap ?c2 = heap ?c1" by simp_all
  from i1 have ii1: "index_inv ?c1" by (simp add: heap_inv_def)
  from inv have ii: "index_inv c" by (simp add: heap_inv_def)
  have "x \<in> fst ` set_mset (sessions ?c1)"
    using live key_iff_session [OF ii, of x] s1 by auto
  then have "x \<in> fst ` set (index_map ?c1)" using key_iff_session [OF ii1, of x] by simp
  then obtain i where key: "map_of (index_map ?c2) x = Some i"
    unfolding im2 by (metis map_of_eq_None_iff not_Some_eq)
  have un2: "shared_storage ?c2 = None" using un by simp
  note fe = forced_eviction [OF i2 p2 key un2]
  let ?xs = "session_of (heap ?c2 ! i)"
  obtain c3 where u: "priv_update_priority ?c2 x 0 = (Inr (), c3)"
    using fe by (metis prod.collapse)
  obtain it c4 where p: "priv_pop c3 = (Inr (Some it), c4)"
    using fe u by (metis prod.collapse snd_conv)
  have c3: "c3 = snd (priv_update_priority ?c2 x 0)" using u by simp
  have c4: "c4 = snd (priv_pop c3)" using p by simp
  have ips3: "ip_to_sessions c3 = ip_to_sessions ?c2" unfolding c3 by (rule update_priority_frame)
  have ips4: "ip_to_sessions c4 = AList.update ?nip (x # rest @ [sid]) (ip_to_sessions c)"
    unfolding c4 using ips3 by simp
  have i3: "heap_inv c3" unfolding c3 by (rule heap_inv_update_priority [OF i2])
  have i4: "heap_inv c4" unfolding c4 by (rule heap_inv_pop [OF i3])
  have s4: "sessions c4 = sessions ?c2 - {#?xs#}" unfolding c4 c3 using fe by blast
  let ?c5 = "c4\<lparr>ip_to_sessions := AList.update ?nip (rest @ [sid]) (ip_to_sessions c4)\<rparr>"
  have l5: "map_of (ip_to_sessions ?c5) ?nip = Some (rest @ [sid])" by (simp add: update_conv')
  have "int (length (rest @ [sid])) \<le> K" using full(2) by simp
  from enforce_ip_cap_within [OF l5 this] have e5: "enforce_ip_cap K ?c5 ?nip = (Inr (), ?c5)" .
  have look2: "map_of (ip_to_sessions ?c2) ?nip = Some (x # rest @ [sid])" by (simp add: update_conv')
  have over: "int (length (x # rest @ [sid])) > K" using full(2) by simp
  have look4: "map_of (ip_to_sessions c4) ?nip = Some (x # rest @ [sid])"
    unfolding ips4 by (simp add: update_conv')
  have e2: "enforce_ip_cap K ?c2 ?nip = (Inr (), ?c5)"
    by (subst enforce_ip_cap.simps) (simp only: look2 over u p look4 e5 option.case list.case
        if_True prod.case sum.case drop_Suc_Cons drop0 One_nat_def)
  have pu: "push K c prio sid d cip = (Inr (), ?c5)"
    using ip look e2 by (simp add: push_def handle_client_ip_and_session_addition_def Let_def)
  have fx: "fst ?xs = x" using fe by (simp add: session_of_def)
  have xsin: "?xs \<in># sessions c"
  proof -
    have "i < length (heap ?c2)" using fe by blast
    then have "?xs \<in># sessions ?c2" by (rule session_nth_in)
    then have "?xs = (sid, prio, d, cip) \<or> ?xs \<in># sessions c" using s1 s2 by auto
    moreover have "x \<noteq> sid" using live fresh by auto
    ultimately show ?thesis using fx by auto
  qed
  have s5: "sessions ?c5 = add_mset (sid, prio, d, cip) (sessions c) - {#?xs#}"
    using s4 s1 s2 by (simp add: sessions_def)
  have ips5: "ip_to_sessions ?c5 = AList.update ?nip (rest @ [sid]) (ip_to_sessions c)"
    using ips4 by simp
  have i5: "heap_inv ?c5" using i4 by simp
  show ?thesis
    unfolding pu fst_conv snd_conv using i5 xsin fx s5 ips5 by blast
qed


subsection \<open>Frame of the address bookkeeping\<close>

text \<open>The fields that only \<open>get_storage\<close> and \<open>bind_jwt_to_session_id\<close> write.\<close>

definition same_config :: "'d container \<Rightarrow> 'd container \<Rightarrow> bool" where
  "same_config c c' \<longleftrightarrow>
     DISABLE_ISOLATION_MODE c' = DISABLE_ISOLATION_MODE c \<and> MAX_SESSIONS c' = MAX_SESSIONS c \<and>
     jwt_to_session c' = jwt_to_session c \<and> jwt_to_session_order c' = jwt_to_session_order c \<and>
     shared_storage c' = shared_storage c"

lemma same_config_refl [simp]: "same_config c c"
  by (simp add: same_config_def)

lemma same_config_trans: "same_config a b \<Longrightarrow> same_config b c \<Longrightarrow> same_config a c"
  by (simp add: same_config_def)

lemma same_config_heap_ops [simp]:
  "same_config c (priv_push c p oid d ip)"
  "same_config c (snd (priv_pop c))"
  "same_config c (snd (priv_update_priority c oid p))"
  "same_config c (c\<lparr>ip_to_sessions := x\<rparr>)"
  "same_config c (c\<lparr>heap := h\<rparr>)"
  by (simp_all add: same_config_def)

lemma same_config_upd [simp]:
  "same_config c (c'\<lparr>ip_to_sessions := x\<rparr>) = same_config c c'"
  "same_config c (c'\<lparr>heap := h\<rparr>) = same_config c c'"
  by (simp_all add: same_config_def)

lemma same_config_enforce_ip_cap: "same_config c (snd (enforce_ip_cap K c ip))"
proof (induction K c ip rule: enforce_ip_cap.induct)
  case (1 K c ip)
  show ?case
  proof (cases "map_of (ip_to_sessions c) ip")
    case None
    then show ?thesis by (subst enforce_ip_cap.simps) simp
  next
    case (Some l)
    show ?thesis
    proof (cases "int (length l) > K")
      case False
      with Some show ?thesis by (subst enforce_ip_cap.simps) simp
    next
      case True
      show ?thesis
      proof (cases l)
        case Nil
        with Some True show ?thesis by (subst enforce_ip_cap.simps) simp
      next
        case (Cons sid rest)
        obtain r1 c1 where u: "priv_update_priority c sid 0 = (r1, c1)" by (cases "priv_update_priority c sid 0")
        obtain r2 c2 where p: "priv_pop c1 = (r2, c2)" by (cases "priv_pop c1")
        have f1: "same_config c c1" using same_config_heap_ops(3) [of c sid 0] u by simp
        have f2: "same_config c1 c2" using same_config_heap_ops(2) [of c1] p by simp
        note f12 = same_config_trans [OF f1 f2]
        have ips: "ip_to_sessions c2 = ip_to_sessions c"
          using update_priority_frame(1) [of c sid 0] pop_frame(1) [of c1] u p by simp
        show ?thesis
        proof (cases r1)
          case (Inl e)
          with Some True Cons u f1 show ?thesis by (subst enforce_ip_cap.simps) simp
        next
          case r1: (Inr x1)
          show ?thesis
          proof (cases r2)
            case (Inl e)
            with Some True Cons u p r1 f12 show ?thesis by (subst enforce_ip_cap.simps) simp
          next
            case r2: (Inr x2)
            let ?c3 = "c2\<lparr>ip_to_sessions := AList.update ip (drop 1 l) (ip_to_sessions c2)\<rparr>"
            have f3: "same_config c ?c3" using f12 by simp
            from "1.IH" [OF Some True Cons u [symmetric] r1 p [symmetric] r2] ips Some
            have "same_config ?c3 (snd (enforce_ip_cap K ?c3 ip))" by simp
            from same_config_trans [OF f3 this]
            show ?thesis
              using Some True Cons u p r1 r2 ips by (subst enforce_ip_cap.simps) simp
          qed
        qed
      qed
    qed
  qed
qed

lemma same_config_push: "same_config c (snd (push K c p sid d ip))"
proof -
  have "same_config (priv_push c p sid d ip)
          (snd (handle_client_ip_and_session_addition K (priv_push c p sid d ip) sid ip))"
    using same_config_enforce_ip_cap
    by (auto simp: handle_client_ip_and_session_addition_def Let_def split: option.splits
        intro: same_config_trans [OF _ same_config_enforce_ip_cap])
  with same_config_heap_ops(1) [of c p sid d ip] show ?thesis
    unfolding push_def by (rule same_config_trans)
qed

lemma same_config_pop: "same_config c (snd (pop c))"
proof -
  obtain r c1 where p: "priv_pop c = (r, c1)" by (cases "priv_pop c")
  with same_config_heap_ops(2) [of c] have "same_config c c1" by simp
  with p show ?thesis
    by (simp add: pop_def handle_client_ip_and_session_eviction_def Let_def
        split: sum.splits option.splits)
qed

lemma get_storage_create:
  assumes iso: "\<not> DISABLE_ISOLATION_MODE c" and sid: "sid \<noteq> []"
    and fresh: "sid \<notin> fst ` set (index_map c)"
    and room: "int (length (index_map c)) < MAX_SESSIONS c"
    and ok: "fst (push K c now sid d cip) = Inr ()"
    and inv: "index_inv (snd (push K c now sid d cip))"
    and there: "sid \<in> fst ` set (index_map (snd (push K c now sid d cip)))"
  shows "snd (get_storage K c (Some sid) cip jwt uuid4 now d) = snd (push K c now sid d cip) \<and>
         (\<exists>x. fst (get_storage K c (Some sid) cip jwt uuid4 now d) = Inr (Some sid, x))"
proof -
  obtain c' where pu: "push K c now sid d cip = (Inr (), c')" using ok by (metis prod.collapse)
  from inv pu have inv': "index_inv c'" by simp
  from there pu obtain i where key: "map_of (index_map c') sid = Some i"
    by (metis map_of_eq_None_iff not_Some_eq snd_conv)
  with inv' have il: "i < length (heap c')" unfolding index_inv_def index_exact_def by blast
  have tgt: "get_storage_target c (Some sid) jwt uuid4 = (sid, c)"
    using sid by (simp add: get_storage_target_def truthy_def)
  have none: "map_of (index_map c) sid = None" using fresh by (simp add: map_of_eq_None_iff)
  show ?thesis
    using iso room pu key il
    by (simp add: get_storage_def tgt none)
qed


lemma new_container_facts:
  "heap_inv (new_container dis ms)" "sessions (new_container dis ms) = {#}"
  "ip_to_sessions (new_container dis ms) = []" "index_map (new_container dis ms) = []"
  "DISABLE_ISOLATION_MODE (new_container dis ms) = dis" "MAX_SESSIONS (new_container dis ms) = ms"
  "all_positive (new_container dis ms)"
proof -
  show "heap_inv (new_container dis ms)" by (rule heap_inv_new_container)
qed (simp_all add: new_container_def sessions_def all_positive_def)

lemma heap_inv_length_index_map: "heap_inv c \<Longrightarrow> length (index_map c) = size (sessions c)"
  by (simp add: heap_inv_def length_index_map)

lemma heap_inv_key_iff: "heap_inv c \<Longrightarrow> k \<in> fst ` set (index_map c) \<longleftrightarrow> k \<in> fst ` set_mset (sessions c)"
  by (simp add: heap_inv_def key_iff_session)

text \<open>
  Claim C5. With the per-address cap 2, on a fresh container with room for three sessions,
  three sessions \<open>s1\<close>, \<open>s2\<close>, \<open>s3\<close> are created from one address in that order (any
  positive timestamps, any payloads). Before the third call \<open>s1\<close> is in the index map; after
  it \<open>s1\<close> is in neither the index map nor the address's list, \<open>s2\<close> and \<open>s3\<close> are in the index
  map, and the address's list is exactly \<open>[s2, s3]\<close>.
\<close>

theorem C5_third_session_evicts_first:
  assumes init: "StorageContainer_init 2 False ms = Inr c0" and ms: "3 \<le> ms"
    and ip: "ip \<noteq> []" and ne: "s1 \<noteq> []" "s2 \<noteq> []" "s3 \<noteq> []"
    and di: "s1 \<noteq> s2" "s1 \<noteq> s3" "s2 \<noteq> s3"
    and ts: "0 < t1" "0 < t2" "0 < t3"
  shows "(let c1 = snd (get_storage 2 c0 (Some s1) (Some ip) j1 u1 t1 d1);
              c2 = snd (get_storage 2 c1 (Some s2) (Some ip) j2 u2 t2 d2);
              c3 = snd (get_storage 2 c2 (Some s3) (Some ip) j3 u3 t3 d3)
          in s1 \<in> fst ` set (index_map c2) \<and>
             s1 \<notin> fst ` set (index_map c3) \<and>
             s2 \<in> fst ` set (index_map c3) \<and> s3 \<in> fst ` set (index_map c3) \<and>
             map_of (ip_to_sessions c3) (normalize_ip_for_limiting ip) = Some [s2, s3] \<and>
             sessions c3 = {#(s2, t2, d2, Some ip), (s3, t3, d3, Some ip)#})"
proof -
  let ?nip = "normalize_ip_for_limiting ip"
  let ?ip = "Some ip"
  have tip: "truthy ?ip" using ip by (simp add: truthy_def)
  have nip: "normalize_ip_for_limiting (the ?ip) = ?nip" by simp
  from init have c0: "c0 = new_container False ms"
    by (simp add: StorageContainer_init_def split: if_splits)
  have f0: "heap_inv c0" "sessions c0 = {#}" "ip_to_sessions c0 = []" "index_map c0 = []"
    "DISABLE_ISOLATION_MODE c0 = False" "MAX_SESSIONS c0 = ms" "all_positive c0"
    unfolding c0 by (rule new_container_facts)+
  have un0: "shared_storage c0 = None" unfolding c0 by (simp add: new_container_def)
  \<comment> \<open>first session\<close>
  let ?p1 = "push 2 c0 t1 s1 d1 ?ip"
  let ?c1 = "snd (get_storage 2 c0 (Some s1) ?ip j1 u1 t1 d1)"
  have fr1: "s1 \<notin> fst ` set (index_map c0)" using f0 by simp
  have rm1: "int (length (sessions_of_ip c0 (normalize_ip_for_limiting (the ?ip)))) < 2"
    using f0 by (simp add: sessions_of_ip_def)
  note r1 = push_no_eviction [OF f0(1) fr1 tip rm1, of t1 d1]
  have s1: "sessions (snd ?p1) = {#(s1, t1, d1, ?ip)#}" using r1 f0 by simp
  have i1: "heap_inv (snd ?p1)" using r1 by simp
  have ips1: "ip_to_sessions (snd ?p1) = [(?nip, [s1])]"
    using r1 f0 by (simp add: sessions_of_ip_def)
  have th1: "s1 \<in> fst ` set (index_map (snd ?p1))"
    using heap_inv_key_iff [OF i1] s1 by simp
  have "snd (get_storage 2 c0 (Some s1) ?ip j1 u1 t1 d1) = snd ?p1"
    using get_storage_create [of c0 s1 2 t1 d1 ?ip j1 u1] f0 ne(1) fr1 ms r1 i1 th1
    by (simp add: heap_inv_def)
  then have e1: "?c1 = snd ?p1" .
  have cf1: "DISABLE_ISOLATION_MODE ?c1 = False" "MAX_SESSIONS ?c1 = ms"
    unfolding e1 using same_config_push [of c0 2 t1 s1 d1 ?ip] f0 by (simp_all add: same_config_def)
  have un1: "shared_storage ?c1 = None"
    unfolding e1 using same_config_push [of c0 2 t1 s1 d1 ?ip] un0 by (simp add: same_config_def)
  have pos1: "all_positive ?c1" unfolding e1 using s1 ts by (simp add: all_positive_def)
  \<comment> \<open>second session\<close>
  let ?p2 = "push 2 ?c1 t2 s2 d2 ?ip"
  let ?c2 = "snd (get_storage 2 ?c1 (Some s2) ?ip j2 u2 t2 d2)"
  have i1': "heap_inv ?c1" unfolding e1 by (rule i1)
  have s1': "sessions ?c1 = {#(s1, t1, d1, ?ip)#}" unfolding e1 by (rule s1)
  have ips1': "ip_to_sessions ?c1 = [(?nip, [s1])]" unfolding e1 by (rule ips1)
  have fr2: "s2 \<notin> fst ` set (index_map ?c1)"
    using heap_inv_key_iff [OF i1'] s1' di by simp
  have rm2: "int (length (sessions_of_ip ?c1 (normalize_ip_for_limiting (the ?ip)))) < 2"
    using ips1' by (simp add: sessions_of_ip_def)
  note r2 = push_no_eviction [OF i1' fr2 tip rm2, of t2 d2]
  have s2: "sessions (snd ?p2) = {#(s2, t2, d2, ?ip), (s1, t1, d1, ?ip)#}" using r2 s1' by simp
  have i2: "heap_inv (snd ?p2)" using r2 by simp
  have ips2: "ip_to_sessions (snd ?p2) = [(?nip, [s1, s2])]"
    using r2 ips1' by (simp add: sessions_of_ip_def)
  have th2: "s2 \<in> fst ` set (index_map (snd ?p2))"
    using heap_inv_key_iff [OF i2] s2 by simp
  have len1: "length (index_map ?c1) = 1" using heap_inv_length_index_map [OF i1'] s1' by simp
  have "snd (get_storage 2 ?c1 (Some s2) ?ip j2 u2 t2 d2) = snd ?p2"
    using get_storage_create [of ?c1 s2 2 t2 d2 ?ip j2 u2] cf1 ne(2) fr2 ms r2 i2 th2 len1
    by (simp add: heap_inv_def)
  then have e2: "?c2 = snd ?p2" .
  have cf2: "DISABLE_ISOLATION_MODE ?c2 = False" "MAX_SESSIONS ?c2 = ms"
    unfolding e2 using same_config_push [of ?c1 2 t2 s2 d2 ?ip] cf1 by (simp_all add: same_config_def)
  have un2: "shared_storage ?c2 = None"
    unfolding e2 using same_config_push [of ?c1 2 t2 s2 d2 ?ip] un1 by (simp add: same_config_def)
  have i2': "heap_inv ?c2" unfolding e2 by (rule i2)
  have s2': "sessions ?c2 = {#(s2, t2, d2, ?ip), (s1, t1, d1, ?ip)#}" unfolding e2 by (rule s2)
  have ips2': "ip_to_sessions ?c2 = [(?nip, [s1, s2])]" unfolding e2 by (rule ips2)
  have pos2: "all_positive ?c2" using s2' ts by (simp add: all_positive_def)
  have in2: "s1 \<in> fst ` set (index_map ?c2)" using heap_inv_key_iff [OF i2'] s2' by simp
  \<comment> \<open>third session\<close>
  let ?p3 = "push 2 ?c2 t3 s3 d3 ?ip"
  let ?c3 = "snd (get_storage 2 ?c2 (Some s3) ?ip j3 u3 t3 d3)"
  have fr3: "s3 \<notin> fst ` set (index_map ?c2)"
    using heap_inv_key_iff [OF i2'] s2' di by simp
  have full: "sessions_of_ip ?c2 (normalize_ip_for_limiting (the ?ip)) = s1 # [s2]"
    "int (length (s1 # [s2])) = 2"
    using ips2' by (simp_all add: sessions_of_ip_def)
  note r3 = push_one_eviction [OF i2' pos2 ts(3) fr3 tip full in2 un2, of d3]
  from r3 obtain xs where xs: "xs \<in># sessions ?c2" "fst xs = s1"
    "sessions (snd ?p3) = add_mset (s3, t3, d3, ?ip) (sessions ?c2) - {#xs#}" by blast
  from xs(1,2) s2' di have xs1: "xs = (s1, t1, d1, ?ip)" by auto
  have s3: "sessions (snd ?p3) = {#(s2, t2, d2, ?ip), (s3, t3, d3, ?ip)#}"
    unfolding xs(3) xs1 s2' by simp
  have i3: "heap_inv (snd ?p3)" using r3 by simp
  have ips3: "ip_to_sessions (snd ?p3) = [(?nip, [s2, s3])]"
    using r3 ips2' by simp
  have th3: "s3 \<in> fst ` set (index_map (snd ?p3))"
    using heap_inv_key_iff [OF i3] s3 by simp
  have len2: "length (index_map ?c2) = 2" using heap_inv_length_index_map [OF i2'] s2' by simp
  have "snd (get_storage 2 ?c2 (Some s3) ?ip j3 u3 t3 d3) = snd ?p3"
    using get_storage_create [of ?c2 s3 2 t3 d3 ?ip j3 u3] cf2 ne(3) fr3 ms r3 i3 th3 len2
    by (simp add: heap_inv_def)
  then have e3: "?c3 = snd ?p3" .
  have k3: "k \<in> fst ` set (index_map ?c3) \<longleftrightarrow> k = s2 \<or> k = s3" for k
    unfolding e3 using heap_inv_key_iff [OF i3, of k] s3 by auto
  have "s1 \<notin> fst ` set (index_map ?c3)" using k3 [of s1] di by simp
  moreover have "s2 \<in> fst ` set (index_map ?c3)" "s3 \<in> fst ` set (index_map ?c3)"
    using k3 by simp_all
  moreover have "map_of (ip_to_sessions ?c3) ?nip = Some [s2, s3]" unfolding e3 ips3 by simp
  moreover have "sessions ?c3 = {#(s2, t2, d2, ?ip), (s3, t3, d3, ?ip)#}" unfolding e3 by (rule s3)
  ultimately show ?thesis using in2 by (simp add: Let_def)
qed


theorem C5_third_session_evicts_first_witness:
  "StorageContainer_init 2 False 3000 = Inr (new_container False 3000 :: unit container) \<and>
   (let c1 = snd (get_storage 2 (new_container False 3000 :: unit container)
                    (Some ''s1'') (Some ''192.168.1.1'') None ''u'' 1 ());
        c2 = snd (get_storage 2 c1 (Some ''s2'') (Some ''192.168.1.1'') None ''u'' 2 ());
        c3 = snd (get_storage 2 c2 (Some ''s3'') (Some ''192.168.1.1'') None ''u'' 3 ())
    in ''s1'' \<in> fst ` set (index_map c2) \<and>
       ''s1'' \<notin> fst ` set (index_map c3) \<and>
       ''s2'' \<in> fst ` set (index_map c3) \<and> ''s3'' \<in> fst ` set (index_map c3) \<and>
       map_of (ip_to_sessions c3) (normalize_ip_for_limiting ''192.168.1.1'') = Some [''s2'', ''s3''] \<and>
       sessions c3 = {#(''s2'', 2, (), Some ''192.168.1.1''), (''s3'', 3, (), Some ''192.168.1.1'')#})"
proof -
  have i: "StorageContainer_init 2 False 3000 = Inr (new_container False 3000 :: unit container)"
    by (simp add: StorageContainer_init_def)
  have "let c1 = snd (get_storage 2 (new_container False 3000 :: unit container)
                    (Some ''s1'') (Some ''192.168.1.1'') None ''u'' 1 ());
        c2 = snd (get_storage 2 c1 (Some ''s2'') (Some ''192.168.1.1'') None ''u'' 2 ());
        c3 = snd (get_storage 2 c2 (Some ''s3'') (Some ''192.168.1.1'') None ''u'' 3 ())
    in ''s1'' \<in> fst ` set (index_map c2) \<and>
       ''s1'' \<notin> fst ` set (index_map c3) \<and>
       ''s2'' \<in> fst ` set (index_map c3) \<and> ''s3'' \<in> fst ` set (index_map c3) \<and>
       map_of (ip_to_sessions c3) (normalize_ip_for_limiting ''192.168.1.1'') = Some [''s2'', ''s3''] \<and>
       sessions c3 = {#(''s2'', 2, (), Some ''192.168.1.1''), (''s3'', 3, (), Some ''192.168.1.1'')#}"
    by (rule C5_third_session_evicts_first [OF i]) simp_all
  with i show ?thesis by (rule conjI)
qed


section \<open>Token bindings\<close>

text \<open>
  Claim C7. In \<open>get_storage\<close> with isolation on, no cookie id and a bearer token: a
  binding is accepted exactly when the bound session id is non-empty and in the index
  map, and then that id is the one served; when the token is unbound, or bound to an id
  that is not in the index map, the container is left as it is by the lookup, the minted id
  is served, and the whole call behaves as the same call without any token: no error
  comes from the stale binding, and a returning call returns the minted id.
\<close>

theorem C7_stale_token_is_a_miss:
  assumes iso: "\<not> DISABLE_ISOLATION_MODE c" and cookie: "\<not> truthy cookie" and tok: "truthy jwt"
  shows "(\<forall>sid. map_of (jwt_to_session c) (the jwt) = Some sid \<and> sid \<noteq> [] \<and>
                sid \<in> fst ` set (index_map c) \<longrightarrow>
              fst (get_storage_target c cookie jwt uuid4) = sid) \<and>
         ((map_of (jwt_to_session c) (the jwt) = None \<or>
           (\<exists>sid. map_of (jwt_to_session c) (the jwt) = Some sid \<and>
                  sid \<notin> fst ` set (index_map c))) \<longrightarrow>
            get_storage_target c cookie jwt uuid4 = (uuid4, c) \<and>
            get_storage K c cookie cip jwt uuid4 now d = get_storage K c None cip None uuid4 now d \<and>
            (\<forall>sid' x. fst (get_storage K c cookie cip jwt uuid4 now d) = Inr (sid', x) \<longrightarrow>
                      sid' = Some uuid4))"
proof (intro conjI allI impI)
  fix sid
  assume "map_of (jwt_to_session c) (the jwt) = Some sid \<and> sid \<noteq> [] \<and>
          sid \<in> fst ` set (index_map c)"
  with cookie tok show "fst (get_storage_target c cookie jwt uuid4) = sid"
    by (simp add: get_storage_target_def truthy_def)
next
  assume miss: "map_of (jwt_to_session c) (the jwt) = None \<or>
           (\<exists>sid. map_of (jwt_to_session c) (the jwt) = Some sid \<and>
                  sid \<notin> fst ` set (index_map c))"
  from miss cookie tok show t: "get_storage_target c cookie jwt uuid4 = (uuid4, c)"
    by (auto simp: get_storage_target_def truthy_def)
  have t0: "get_storage_target c None None uuid4 = (uuid4, c)"
    by (simp add: get_storage_target_def truthy_def)
  show "get_storage K c cookie cip jwt uuid4 now d = get_storage K c None cip None uuid4 now d"
    by (simp add: get_storage_def t t0)
  fix sid' x
  assume "fst (get_storage K c cookie cip jwt uuid4 now d) = Inr (sid', x)"
  with iso show "sid' = Some uuid4"
    by (auto simp: get_storage_def t Let_def split: option.splits sum.splits prod.splits if_splits)
qed

theorem C7_stale_token_is_a_miss_witness:
  "\<not> DISABLE_ISOLATION_MODE (snd (bind_jwt_to_session_id (new_container False 3000 :: unit container) ''t'' ''gone'')) \<and>
   \<not> truthy None \<and> truthy (Some ''t'') \<and>
   map_of (jwt_to_session (snd (bind_jwt_to_session_id (new_container False 3000 :: unit container) ''t'' ''gone'')))
     (the (Some ''t'')) = Some ''gone'' \<and>
   ''gone'' \<notin> fst ` set (index_map (snd (bind_jwt_to_session_id (new_container False 3000 :: unit container) ''t'' ''gone''))) \<and>
   fst (get_storage 30 (snd (bind_jwt_to_session_id (new_container False 3000 :: unit container) ''t'' ''gone''))
          None None (Some ''t'') ''minted'' 5 ()) = Inr (Some ''minted'', ())"
proof -
  let ?c = "snd (bind_jwt_to_session_id (new_container False 3000 :: unit container) ''t'' ''gone'')"
  have iso: "\<not> DISABLE_ISOLATION_MODE ?c" by code_simp
  have ck: "\<not> truthy None" by (simp add: truthy_def)
  have tk: "truthy (Some ''t'')" by (simp add: truthy_def)
  have b: "map_of (jwt_to_session ?c) (the (Some ''t'')) = Some ''gone''" by code_simp
  have g: "''gone'' \<notin> fst ` set (index_map ?c)" by code_simp
  have r: "fst (get_storage 30 ?c None None None ''minted'' 5 ()) = Inr (Some ''minted'', ())"
    by code_simp
  from C7_stale_token_is_a_miss [OF iso ck tk, of "''minted''" 30 None 5 "()"] b g
  have "get_storage 30 ?c None None (Some ''t'') ''minted'' 5 ()
        = get_storage 30 ?c None None None ''minted'' 5 ()" by blast
  with r have "fst (get_storage 30 ?c None None (Some ''t'') ''minted'' 5 ()) = Inr (Some ''minted'', ())"
    by simp
  with iso ck tk b g show ?thesis by blast
qed

text \<open>
  \<open>bind\<close> as the specification words it: remove the bindings of the token and of the
  session; then, if the number of bindings left is at or over the cap, evict the oldest
  remaining token; then append the new binding.
\<close>

definition bind_as_specified :: "'d container \<Rightarrow> string \<Rightarrow> string \<Rightarrow> 'd container" where
  "bind_as_specified c jwt_token session_id =
     (let table1 = filter (\<lambda>(t, s). t \<noteq> jwt_token \<and> s \<noteq> session_id) (jwt_to_session c);
          order1 = filter (\<lambda>t. t \<in> set (map fst table1)) (jwt_to_session_order c);
          evict = (int (length table1) \<ge> MAX_SESSIONS c);
          table2 = (if evict then filter (\<lambda>(t, s). t \<noteq> hd order1) table1 else table1);
          order2 = (if evict then drop 1 order1 else order1)
      in c\<lparr>jwt_to_session := table2 @ [(jwt_token, session_id)],
           jwt_to_session_order := order2 @ [jwt_token]\<rparr>)"

text \<open>The token table and its order list describe the same set of tokens, each once.\<close>

definition jwt_inv :: "'d container \<Rightarrow> bool" where
  "jwt_inv c \<longleftrightarrow>
     distinct (map fst (jwt_to_session c)) \<and> distinct (jwt_to_session_order c) \<and>
     set (jwt_to_session_order c) = fst ` set (jwt_to_session c)"



lemma map_of_filter_key:
  "map_of (filter (\<lambda>(k, v). P k) al) k = (if P k then map_of al k else None)"
  by (induction al) auto

lemma update_absent: "k \<notin> fst ` set al \<Longrightarrow> AList.update k v al = al @ [(k, v)]"
  by (induction al) auto

lemma distinct_filter_keys: "distinct (map fst al) \<Longrightarrow> distinct (map fst (filter P al))"
  by (induction al) (auto simp: image_iff)

lemma map_of_Some_iff_mem: "distinct (map fst al) \<Longrightarrow> map_of al k = Some v \<longleftrightarrow> (k, v) \<in> set al"
  by (auto simp: map_of_eq_Some_iff)

text \<open>
  Claim C3, as amended. On a table that agrees with its order list, with a positive cap:
  \<open>bind\<close> returns normally; the token is bound to the session afterwards; any other token
  loses its binding exactly when it was bound to the given session, or when the order list
  held at least \<open>MAX_SESSIONS\<close> tokens before anything was removed and it is the oldest
  of them, and otherwise keeps it; the order list keeps the surviving tokens in order
  and ends with the new token.
\<close>

theorem C3_bind_evicts_on_length_before_removal:
  assumes iso: "\<not> DISABLE_ISOLATION_MODE c" and inv: "jwt_inv c" and cap: "0 < MAX_SESSIONS c"
  shows "(let c' = snd (bind_jwt_to_session_id c tok sid);
              evict = (int (length (jwt_to_session_order c)) \<ge> MAX_SESSIONS c);
              oldest = hd (jwt_to_session_order c)
          in fst (bind_jwt_to_session_id c tok sid) = Inr () \<and>
             map_of (jwt_to_session c') tok = Some sid \<and>
             (\<forall>t. t \<noteq> tok \<longrightarrow>
                  map_of (jwt_to_session c') t =
                    (if map_of (jwt_to_session c) t = Some sid \<or> (evict \<and> t = oldest) then None
                     else map_of (jwt_to_session c) t)) \<and>
             jwt_to_session_order c' =
               filter (\<lambda>t. t \<noteq> tok \<and> map_of (jwt_to_session c) t \<noteq> Some sid \<and>
                            \<not> (evict \<and> t = oldest)) (jwt_to_session_order c) @ [tok] \<and>
             jwt_inv c')"
proof -
  let ?T = "jwt_to_session c" and ?O = "jwt_to_session_order c"
  let ?evict = "int (length ?O) \<ge> MAX_SESSIONS c"
  let ?oldest = "hd ?O"
  let ?matching = "map fst (filter (\<lambda>(t, s). t = tok \<or> s = sid) ?T)"
  let ?R = "if ?evict then ?oldest # ?matching else ?matching"
  from inv have dT: "distinct (map fst ?T)" and dO: "distinct ?O" and eq: "set ?O = fst ` set ?T"
    by (simp_all add: jwt_inv_def)
  have ne: "?O \<noteq> []" if "?evict" using that cap by auto
  have mem: "t \<in> set ?matching \<longleftrightarrow> (t = tok \<and> t \<in> fst ` set ?T) \<or> map_of ?T t = Some sid" for t
    using dT by (force simp: map_of_Some_iff_mem image_iff)
  have memR: "t \<in> set ?R \<longleftrightarrow> (?evict \<and> t = ?oldest) \<or> t \<in> set ?matching" for t
    by auto
  have sub: "set ?R \<subseteq> fst ` set ?T"
  proof
    fix t assume "t \<in> set ?R"
    then consider "?evict \<and> t = ?oldest" | "t \<in> set ?matching" using memR by blast
    then show "t \<in> fst ` set ?T"
    proof cases
      case 1
      with ne have "t \<in> set ?O" by simp
      with eq show ?thesis by simp
    next
      case 2
      then show ?thesis by force
    qed
  qed
  let ?T1 = "filter (\<lambda>(t, s). t \<notin> set ?R) ?T"
  let ?O1 = "filter (\<lambda>t. t \<notin> set ?R) ?O"
  have tokR: "tok \<in> fst ` set ?T \<Longrightarrow> tok \<in> set ?R" using mem [of tok] memR [of tok] by blast
  have tok1: "tok \<notin> fst ` set ?T1"
  proof
    assume "tok \<in> fst ` set ?T1"
    then obtain p where p: "p \<in> set ?T1" "fst p = tok" by blast
    obtain t s where ts: "p = (t, s)" by (cases p)
    from p ts have "(tok, s) \<in> set ?T" "tok \<notin> set ?R" by simp_all
    then have "tok \<in> fst ` set ?T" "tok \<notin> set ?R" by (force, blast)
    with tokR show False by blast
  qed
  have T': "AList.update tok sid ?T1 = ?T1 @ [(tok, sid)]" by (rule update_absent [OF tok1])
  have res: "bind_jwt_to_session_id c tok sid =
      (Inr (), c\<lparr>jwt_to_session_order := ?O1 @ [tok], jwt_to_session := ?T1 @ [(tok, sid)]\<rparr>)"
  proof (cases ?evict)
    case True
    with ne have "?O \<noteq> []" by simp
    with True sub T' iso show ?thesis
      by (simp add: bind_jwt_to_session_id_def Let_def)
  next
    case False
    with sub T' iso show ?thesis
      by (simp add: bind_jwt_to_session_id_def Let_def)
  qed
  define R where "R = set ?R"
  define T1 where "T1 = filter (\<lambda>(t, s). t \<notin> R) ?T"
  define O1 where "O1 = filter (\<lambda>t. t \<notin> R) ?O"
  have T1: "?T1 = T1" and O1: "?O1 = O1" by (simp_all add: T1_def O1_def R_def)
  have Rm: "t \<in> R \<longleftrightarrow> (?evict \<and> t = ?oldest) \<or> t \<in> set ?matching" for t
    unfolding R_def by (rule memR)
  have tok1': "tok \<notin> fst ` set T1" using tok1 unfolding T1 .
  have none: "map_of T1 tok = None" using tok1' by (simp add: map_of_eq_None_iff)
  have m1: "map_of T1 t = (if t \<notin> R then map_of ?T t else None)" for t
    unfolding T1_def using map_of_filter_key [of "\<lambda>t. t \<notin> R" ?T t] by simp
  have p1: "map_of (T1 @ [(tok, sid)]) tok = Some sid"
    using none by (simp add: map_add_def)
  have p2: "map_of (T1 @ [(tok, sid)]) t =
                    (if map_of ?T t = Some sid \<or> (?evict \<and> t = ?oldest) then None
                     else map_of ?T t)" if "t \<noteq> tok" for t
  proof -
    have "map_of (T1 @ [(tok, sid)]) t = map_of T1 t"
      using that by (simp add: map_add_def split: option.splits)
    also have "\<dots> = (if t \<notin> R then map_of ?T t else None)" by (rule m1)
    finally have a: "map_of (T1 @ [(tok, sid)]) t = (if t \<notin> R then map_of ?T t else None)" .
    have b: "t \<in> R \<longleftrightarrow> map_of ?T t = Some sid \<or> (?evict \<and> t = ?oldest)"
      using Rm [of t] mem [of t] that by blast
    show ?thesis unfolding a b by simp
  qed
  have p3: "O1 = filter (\<lambda>t. t \<noteq> tok \<and> map_of ?T t \<noteq> Some sid \<and> \<not> (?evict \<and> t = ?oldest)) ?O"
    unfolding O1_def
  proof (rule filter_cong [OF refl])
    fix t assume "t \<in> set ?O"
    then have "t \<in> fst ` set ?T" using eq by simp
    then show "(t \<notin> R) = (t \<noteq> tok \<and> map_of ?T t \<noteq> Some sid \<and> \<not> (?evict \<and> t = ?oldest))"
      using Rm [of t] mem [of t] by blast
  qed
  have p4: "jwt_inv (c\<lparr>jwt_to_session_order := O1 @ [tok], jwt_to_session := T1 @ [(tok, sid)]\<rparr>)"
  proof -
    have "distinct (map fst T1)" unfolding T1_def by (rule distinct_filter_keys [OF dT])
    with tok1' have a: "distinct (map fst (T1 @ [(tok, sid)]))" by (simp add: image_iff)
    have o1: "set O1 = fst ` set T1" unfolding O1_def T1_def using eq by (auto simp: image_iff)
    with tok1' have "tok \<notin> set O1" by simp
    moreover have "distinct O1" unfolding O1_def using dO by simp
    ultimately have b: "distinct (O1 @ [tok])" by simp
    have c: "set (O1 @ [tok]) = fst ` set (T1 @ [(tok, sid)])" using o1 by auto
    from a b c show ?thesis by (simp add: jwt_inv_def)
  qed
  have res': "bind_jwt_to_session_id c tok sid =
      (Inr (), c\<lparr>jwt_to_session_order := O1 @ [tok], jwt_to_session := T1 @ [(tok, sid)]\<rparr>)"
    using res unfolding T1 O1 .
  have sel: "jwt_to_session (c\<lparr>jwt_to_session_order := O1 @ [tok], jwt_to_session := T1 @ [(tok, sid)]\<rparr>)
               = T1 @ [(tok, sid)]"
    "jwt_to_session_order (c\<lparr>jwt_to_session_order := O1 @ [tok], jwt_to_session := T1 @ [(tok, sid)]\<rparr>)
               = O1 @ [tok]"
    by simp_all
  show ?thesis
    unfolding Let_def res' fst_conv snd_conv sel
    using p1 p2 p3 p4 by blast
qed


theorem C3_bind_evicts_on_length_before_removal_witness:
  "\<not> DISABLE_ISOLATION_MODE
       (snd (bind_jwt_to_session_id (snd (bind_jwt_to_session_id
          (new_container False 2 :: unit container) ''t1'' ''s1'')) ''t2'' ''s2'')) \<and>
   jwt_inv (snd (bind_jwt_to_session_id (snd (bind_jwt_to_session_id
          (new_container False 2 :: unit container) ''t1'' ''s1'')) ''t2'' ''s2'')) \<and>
   0 < MAX_SESSIONS (snd (bind_jwt_to_session_id (snd (bind_jwt_to_session_id
          (new_container False 2 :: unit container) ''t1'' ''s1'')) ''t2'' ''s2'')) \<and>
   map_of (jwt_to_session (snd (bind_jwt_to_session_id
      (snd (bind_jwt_to_session_id (snd (bind_jwt_to_session_id
          (new_container False 2 :: unit container) ''t1'' ''s1'')) ''t2'' ''s2''))
      ''t2'' ''s3''))) ''t2'' = Some ''s3'' \<and>
   map_of (jwt_to_session (snd (bind_jwt_to_session_id
      (snd (bind_jwt_to_session_id (snd (bind_jwt_to_session_id
          (new_container False 2 :: unit container) ''t1'' ''s1'')) ''t2'' ''s2''))
      ''t2'' ''s3''))) ''t1'' = None"
proof -
  let ?c = "snd (bind_jwt_to_session_id (snd (bind_jwt_to_session_id
          (new_container False 2 :: unit container) ''t1'' ''s1'')) ''t2'' ''s2'')"
  have st: "?c = \<lparr>DISABLE_ISOLATION_MODE = False, MAX_SESSIONS = 2, heap = [], index_map = [],
                  jwt_to_session = [(''t1'', ''s1''), (''t2'', ''s2'')],
                  jwt_to_session_order = [''t1'', ''t2''], ip_to_sessions = [],
                  shared_storage = None\<rparr>"
    by code_simp
  have iso: "\<not> DISABLE_ISOLATION_MODE ?c" unfolding st by simp
  have inv: "jwt_inv ?c" unfolding st by (simp add: jwt_inv_def)
  have cap: "0 < MAX_SESSIONS ?c" unfolding st by simp
  have ev: "int (length (jwt_to_session_order ?c)) \<ge> MAX_SESSIONS ?c"
    "hd (jwt_to_session_order ?c) = ''t1''" "''t1'' \<noteq> ''t2''"
    unfolding st by simp_all
  from C3_bind_evicts_on_length_before_removal [OF iso inv cap, of "''t2''" "''s3''"]
  have "map_of (jwt_to_session (snd (bind_jwt_to_session_id ?c ''t2'' ''s3''))) ''t2'' = Some ''s3''"
    and "map_of (jwt_to_session (snd (bind_jwt_to_session_id ?c ''t2'' ''s3''))) ''t1'' = None"
    using ev by (simp_all add: Let_def)
  with iso inv cap show ?thesis by blast
qed

theorem C3_eviction_after_removal_counterexample:
  "snd (bind_jwt_to_session_id
      (snd (bind_jwt_to_session_id (snd (bind_jwt_to_session_id
          (new_container False 2 :: unit container) ''t1'' ''s1'')) ''t2'' ''s2''))
      ''t2'' ''s3'')
   \<noteq> bind_as_specified
      (snd (bind_jwt_to_session_id (snd (bind_jwt_to_session_id
          (new_container False 2 :: unit container) ''t1'' ''s1'')) ''t2'' ''s2''))
      ''t2'' ''s3'' \<and>
   jwt_to_session (bind_as_specified
      (snd (bind_jwt_to_session_id (snd (bind_jwt_to_session_id
          (new_container False 2 :: unit container) ''t1'' ''s1'')) ''t2'' ''s2''))
      ''t2'' ''s3'') = [(''t1'', ''s1''), (''t2'', ''s3'')] \<and>
   jwt_to_session (snd (bind_jwt_to_session_id
      (snd (bind_jwt_to_session_id (snd (bind_jwt_to_session_id
          (new_container False 2 :: unit container) ''t1'' ''s1'')) ''t2'' ''s2''))
      ''t2'' ''s3'')) = [(''t2'', ''s3'')]"
proof -
  let ?c = "snd (bind_jwt_to_session_id (snd (bind_jwt_to_session_id
          (new_container False 2 :: unit container) ''t1'' ''s1'')) ''t2'' ''s2'')"
  have a: "jwt_to_session (bind_as_specified ?c ''t2'' ''s3'') = [(''t1'', ''s1''), (''t2'', ''s3'')]"
    by code_simp
  have b: "jwt_to_session (snd (bind_jwt_to_session_id ?c ''t2'' ''s3'')) = [(''t2'', ''s3'')]"
    by code_simp
  have "snd (bind_jwt_to_session_id ?c ''t2'' ''s3'') \<noteq> bind_as_specified ?c ''t2'' ''s3''"
  proof
    assume "snd (bind_jwt_to_session_id ?c ''t2'' ''s3'') = bind_as_specified ?c ''t2'' ''s3''"
    then have "jwt_to_session (snd (bind_jwt_to_session_id ?c ''t2'' ''s3''))
             = jwt_to_session (bind_as_specified ?c ''t2'' ''s3'')" by (rule arg_cong)
    with a b show False by simp
  qed
  with a b show ?thesis by blast
qed

section \<open>Two defects, evaluated\<close>

text \<open>
  Claim C10, at a failing input. A first request without a token creates the session
  \<open>session-1\<close>; registration binds \<open>token-1\<close> to it; the next request carries the token. The
  token-resolution branch of \<open>get_storage\<close> filters the order list by the session id, not by
  the token, and appends the token: the order list then holds the token twice.
\<close>

theorem C10_token_order_holds_token_twice:
  "jwt_to_session_order
     (snd (get_storage 30
        (snd (bind_jwt_to_session_id
           (snd (get_storage 30 (new_container False 3000 :: unit container)
                   None (Some ''10.0.0.1'') None ''session-1'' 1 ()))
           ''token-1'' ''session-1''))
        None (Some ''10.0.0.1'') (Some ''token-1'') ''session-2'' 2 ()))
   = [''token-1'', ''token-1''] \<and>
   jwt_to_session
     (snd (get_storage 30
        (snd (bind_jwt_to_session_id
           (snd (get_storage 30 (new_container False 3000 :: unit container)
                   None (Some ''10.0.0.1'') None ''session-1'' 1 ()))
           ''token-1'' ''session-1''))
        None (Some ''10.0.0.1'') (Some ''token-1'') ''session-2'' 2 ()))
   = [(''token-1'', ''session-1'')] \<and>
   fst (get_storage 30
        (snd (bind_jwt_to_session_id
           (snd (get_storage 30 (new_container False 3000 :: unit container)
                   None (Some ''10.0.0.1'') None ''session-1'' 1 ()))
           ''token-1'' ''session-1''))
        None (Some ''10.0.0.1'') (Some ''token-1'') ''session-2'' 2 ())
   = Inr (Some ''session-1'', ())"
  by code_simp

text \<open>
  Claim C2, at a failing input, with the cap 1. Session \<open>s1\<close> is created from an IPv6
  address and then touched from an IPv4 address: the heap entry holds the raw IPv6
  address, which is not a key of \<open>ip_to_sessions\<close>, so the reattribution leaves \<open>s1\<close> in the
  list of its /64 and also adds it to the list of the IPv4 address. A second session from
  the same /64 evicts \<open>s1\<close>, which stays listed under the IPv4 address. Creating \<open>s3\<close> from
  that IPv4 address then raises \<open>ValueError\<close> inside the cap loop, after the list has grown
  to two entries; the next call completes and the list still has two entries.
\<close>

definition quota_trace :: "unit container" where
  "quota_trace =
     snd (get_storage 1
       (snd (get_storage 1
         (snd (get_storage 1
           (snd (get_storage 1 (new_container False 3000)
                   (Some ''s1'') (Some ''2001:db8:0:1::a'') None ''u'' 1 ()))
           (Some ''s1'') (Some ''1.2.3.4'') None ''u'' 2 ()))
         (Some ''s2'') (Some ''2001:db8:0:1::b'') None ''u'' 3 ()))
       (Some ''s3'') (Some ''1.2.3.4'') None ''u'' 4 ())"

theorem C2_address_list_exceeds_cap:
  "StorageContainer_init 1 False 3000 = Inr (new_container False 3000 :: unit container) \<and>
   map_of (ip_to_sessions quota_trace) ''1.2.3.4'' = Some [''s1'', ''s3''] \<and>
   fst (get_storage 1 quota_trace (Some ''s4'') None None ''u'' 5 ()) = Inr (Some ''s4'', ()) \<and>
   map_of (ip_to_sessions (snd (get_storage 1 quota_trace (Some ''s4'') None None ''u'' 5 ())))
     ''1.2.3.4'' = Some [''s1'', ''s3''] \<and>
   ''s1'' \<notin> fst ` set (index_map quota_trace)"
proof -
  have "StorageContainer_init 1 False 3000 = Inr (new_container False 3000 :: unit container)"
    by (simp add: StorageContainer_init_def)
  moreover have "map_of (ip_to_sessions quota_trace) ''1.2.3.4'' = Some [''s1'', ''s3'']"
    by code_simp
  moreover have "fst (get_storage 1 quota_trace (Some ''s4'') None None ''u'' 5 ()) = Inr (Some ''s4'', ())"
    by code_simp
  moreover have "map_of (ip_to_sessions (snd (get_storage 1 quota_trace (Some ''s4'') None None ''u'' 5 ())))
     ''1.2.3.4'' = Some [''s1'', ''s3'']"
    by code_simp
  moreover have "''s1'' \<notin> fst ` set (index_map quota_trace)"
    by code_simp
  ultimately show ?thesis by blast
qed

section \<open>Credential search\<close>

text \<open>
  \<open>InMemoryStorage\<close>: the five stores of one session. Every caller of \<open>push\<close> passes one
  as the payload, so the credential search reads containers whose payloads are storages.
\<close>

record InMemoryStorage =
  users :: InMemoryModel
  articles :: InMemoryModel
  comments :: InMemoryModel
  follows :: InMemoryLinks
  favorites :: InMemoryLinks

text \<open>
  The inner loop of \<open>find_session_by_credentials\<close> over \<open>storage.users.values()\<close>: \<open>True\<close>
  at the first user whose email and password both match; reading a missing field raises
  \<open>KeyError\<close> (the password is read only when the email matches).
\<close>

fun users_match :: "obj list \<Rightarrow> string \<Rightarrow> string \<Rightarrow> error + bool" where
  "users_match [] email hashed_password = Inr False"
| "users_match (user # rest) email hashed_password =
     (case map_of user ''email'' of
        None \<Rightarrow> Inl KeyError
      | Some e \<Rightarrow>
          if e = PyStr email then
            (case map_of user ''password'' of
               None \<Rightarrow> Inl KeyError
             | Some p \<Rightarrow>
                 if p = PyStr hashed_password then Inr True
                 else users_match rest email hashed_password)
          else users_match rest email hashed_password)"

fun find_in_heap ::
  "InMemoryStorage item list \<Rightarrow> string \<Rightarrow> string \<Rightarrow> error + (string \<times> InMemoryStorage) option" where
  "find_in_heap [] email hashed_password = Inr None"
| "find_in_heap (heap_item # rest) email hashed_password =
     (case users_match (map snd (objects (users (data heap_item)))) email hashed_password of
        Inl e \<Rightarrow> Inl e
      | Inr True \<Rightarrow> Inr (Some (obj_id heap_item, data heap_item))
      | Inr False \<Rightarrow> find_in_heap rest email hashed_password)"

text \<open>
  \<open>find_session_by_credentials\<close>. With the shared storage in slot 0 of the source's heap
  (and isolation on) the first element of the loop is not an entry, and unpacking it
  raises \<open>TypeError\<close>.
\<close>

definition find_session_by_credentials ::
  "InMemoryStorage container \<Rightarrow> string \<Rightarrow> string \<Rightarrow> error + (string \<times> InMemoryStorage) option" where
  "find_session_by_credentials c email hashed_password =
     (if DISABLE_ISOLATION_MODE c then Inr None
      else
        (case shared_storage c of
           Some s \<Rightarrow> Inl TypeError
         | None \<Rightarrow> find_in_heap (heap c) email hashed_password))"

text \<open>
  What the claim speaks of, stated without the search: a user record carries this email
  and this hashed password, and a storage holds such a record among its users.
\<close>

definition has_credentials :: "obj \<Rightarrow> string \<Rightarrow> string \<Rightarrow> bool" where
  "has_credentials user email hashed_password \<longleftrightarrow>
     map_of user ''email'' = Some (PyStr email) \<and>
     map_of user ''password'' = Some (PyStr hashed_password)"

definition holds_user :: "InMemoryStorage \<Rightarrow> string \<Rightarrow> string \<Rightarrow> bool" where
  "holds_user st email hashed_password \<longleftrightarrow>
     (\<exists>user \<in> set (map snd (objects (users st))). has_credentials user email hashed_password)"

text \<open>Every stored user record has the two fields the search reads.\<close>

definition users_well_formed :: "InMemoryStorage container \<Rightarrow> bool" where
  "users_well_formed c \<longleftrightarrow>
     (\<forall>it \<in> set (heap c). \<forall>u \<in> set (map snd (objects (users (data it)))).
        map_of u ''email'' \<noteq> None \<and> map_of u ''password'' \<noteq> None)"

lemma users_match_iff:
  "(\<forall>u \<in> set us. map_of u ''email'' \<noteq> None \<and> map_of u ''password'' \<noteq> None) \<Longrightarrow>
   users_match us e p = Inr (\<exists>u \<in> set us. has_credentials u e p)"
  by (induction us) (auto simp: has_credentials_def split: option.splits)

lemma find_in_heap_first:
  assumes "\<forall>it \<in> set h. \<forall>u \<in> set (map snd (objects (users (data it)))).
        map_of u ''email'' \<noteq> None \<and> map_of u ''password'' \<noteq> None"
  shows "find_in_heap h e p =
           Inr (map_option (\<lambda>x. (obj_id x, data x)) (find (\<lambda>x. holds_user (data x) e p) h))"
  using assms
proof (induction h)
  case Nil
  then show ?case by simp
next
  case (Cons it h)
  from Cons.prems
  have m: "users_match (map snd (objects (users (data it)))) e p = Inr (holds_user (data it) e p)"
    unfolding holds_user_def by (intro users_match_iff) simp
  from Cons have "find_in_heap h e p =
           Inr (map_option (\<lambda>x. (obj_id x, data x)) (find (\<lambda>x. holds_user (data x) e p) h))"
    by simp
  with m show ?case by (cases "holds_user (data it) e p") simp_all
qed

lemma pop_heap_sessions:
  assumes "fst (pop c) = Inr (Some it)"
  shows "sessions c = add_mset (session_of it) (sessions (snd (pop c)))"
proof -
  obtain r c1 where p: "priv_pop c = (r, c1)" by (cases "priv_pop c")
  with assms have r: "r = Inr (Some it)"
    by (auto simp: pop_def split: sum.splits option.splits)
  have "fst (priv_pop c) = Inr (Some it)" using p r by simp
  from sessions_pop [OF this] have "add_mset (session_of it) (sessions (snd (priv_pop c))) = sessions c"
    by (rule conjunct2 [THEN conjunct2])
  then have "add_mset (session_of it) (sessions c1) = sessions c" using p by simp
  moreover have "sessions (snd (pop c)) = sessions c1"
    using p r by (simp add: pop_def handle_client_ip_and_session_eviction_def Let_def sessions_def
        split: option.splits)
  ultimately show ?thesis by simp
qed

lemma pop_returns: "fst (pop c) = Inr r \<Longrightarrow> shared_storage c = None"
proof -
  assume a: "fst (pop c) = Inr r"
  obtain x c1 where p: "priv_pop c = (x, c1)" by (cases "priv_pop c")
  with a obtain y where "x = Inr y" by (cases x) (auto simp: pop_def)
  with p have "fst (priv_pop c) = Inr y" by simp
  then show ?thesis by (rule priv_pop_returns)
qed

lemma in_sessions_iff: "(sid, prio, st, cip) \<in># sessions c \<longleftrightarrow>
    (\<exists>it \<in> set (heap c). obj_id it = sid \<and> priority it = prio \<and> data it = st \<and> client_ip it = cip)"
  by (auto simp: sessions_def session_of_def image_iff)

lemma heap_inv_distinct_ids: "heap_inv c \<Longrightarrow> distinct (map obj_id (heap c))"
  using index_inv_ids [of c] by (auto simp: heap_inv_def distinct_conv_nth)

lemma heap_ids: "map obj_id (heap c) = map fst (map session_of (heap c))"
  by (simp add: session_of_def)

lemma evicted_id_gone:
  assumes inv: "heap_inv c" and s: "sessions c = add_mset (session_of it) (sessions c')"
  shows "obj_id it \<notin> fst ` set_mset (sessions c')"
proof -
  have "mset (map session_of (heap c)) = mset (session_of it # map session_of (heap c'))"
    using s by (simp add: sessions_def)
  then have "image_mset fst (mset (map session_of (heap c))) =
             image_mset fst (mset (session_of it # map session_of (heap c')))"
    by (rule arg_cong)
  then have "mset (map fst (map session_of (heap c))) =
             mset (map fst (session_of it # map session_of (heap c')))"
    by (simp only: mset_map)
  then have "mset (map obj_id (heap c)) = mset (map fst (session_of it # map session_of (heap c')))"
    unfolding heap_ids .
  from mset_eq_imp_distinct_iff [OF this] heap_inv_distinct_ids [OF inv]
  have "distinct (map fst (session_of it # map session_of (heap c')))" by simp
  then have "fst (session_of it) \<notin> set (map fst (map session_of (heap c')))" by simp
  then show ?thesis by (auto simp: sessions_def session_of_def)
qed

text \<open>
  Claim C4, as amended. A session is evicted with \<open>pop\<close> (isolation on, every remaining
  user record carrying its email and password fields); the sessions left are those before
  minus the evicted one. A later credential lookup does not raise and returns the first
  session left in the queue, in heap order, whose storage holds a user record with that
  email and that hashed password, together with that storage; it reports not-found exactly
  when no session left holds such a record. A returned id is the id of a session still in
  the queue, and in a well-formed heap it is not the evicted id. So the user of the
  evicted session is recovered exactly when a session that is left holds a storage with
  its record: when one of them shares the evicted session's storage the lookup succeeds,
  and when moreover no other storage left holds these credentials the storage returned is
  the evicted session's own, with every record as it was.
\<close>

theorem C4_lookup_after_eviction:
  assumes iso: "\<not> DISABLE_ISOLATION_MODE c" and popped: "fst (pop c) = Inr (Some it)"
    and wf: "users_well_formed (snd (pop c))"
  shows "sessions c = add_mset (session_of it) (sessions (snd (pop c))) \<and>
         find_session_by_credentials (snd (pop c)) email pw =
           Inr (map_option (\<lambda>x. (obj_id x, data x))
                  (find (\<lambda>x. holds_user (data x) email pw) (heap (snd (pop c))))) \<and>
         (find_session_by_credentials (snd (pop c)) email pw = Inr None \<longleftrightarrow>
            (\<forall>s \<in># sessions (snd (pop c)). \<not> holds_user (fst (snd (snd s))) email pw)) \<and>
         (\<forall>sid st. find_session_by_credentials (snd (pop c)) email pw = Inr (Some (sid, st)) \<longrightarrow>
            holds_user st email pw \<and>
            (\<exists>prio cip. (sid, prio, st, cip) \<in># sessions (snd (pop c))) \<and>
            (heap_inv c \<longrightarrow> sid \<noteq> obj_id it)) \<and>
         (holds_user (data it) email pw \<and>
          (\<exists>s \<in># sessions (snd (pop c)). fst (snd (snd s)) = data it) \<longrightarrow>
            (\<exists>sid st. find_session_by_credentials (snd (pop c)) email pw = Inr (Some (sid, st)) \<and>
               ((\<forall>s \<in># sessions (snd (pop c)).
                   holds_user (fst (snd (snd s))) email pw \<longrightarrow> fst (snd (snd s)) = data it) \<longrightarrow>
                st = data it)))"
proof -
  let ?c' = "snd (pop c)"
  let ?P = "\<lambda>x. holds_user (data x) email pw"
  have un: "shared_storage c = None" using popped by (rule pop_returns)
  have cfg: "\<not> DISABLE_ISOLATION_MODE ?c'" "shared_storage ?c' = None"
    using same_config_pop [of c] iso un by (simp_all add: same_config_def)
  then have f: "find_session_by_credentials ?c' email pw = find_in_heap (heap ?c') email pw"
    by (simp add: find_session_by_credentials_def)
  have a: "sessions c = add_mset (session_of it) (sessions ?c')" by (rule pop_heap_sessions [OF popped])
  have b: "find_session_by_credentials ?c' email pw =
           Inr (map_option (\<lambda>x. (obj_id x, data x)) (find ?P (heap ?c')))"
    unfolding f using wf unfolding users_well_formed_def by (rule find_in_heap_first)
  have hs: "(\<exists>s \<in># sessions ?c'. Q (fst (snd (snd s)))) \<longleftrightarrow> (\<exists>x \<in> set (heap ?c'). Q (data x))" for Q
    by (auto simp: sessions_def session_of_def)
  have e: "find_session_by_credentials ?c' email pw = Inr None \<longleftrightarrow>
            (\<forall>s \<in># sessions ?c'. \<not> holds_user (fst (snd (snd s))) email pw)"
  proof -
    have "find_session_by_credentials ?c' email pw = Inr None \<longleftrightarrow> find ?P (heap ?c') = None"
      unfolding b by simp
    also have "\<dots> \<longleftrightarrow> \<not> (\<exists>x \<in> set (heap ?c'). ?P x)" by (auto simp: find_None_iff)
    also have "\<dots> \<longleftrightarrow> \<not> (\<exists>s \<in># sessions ?c'. holds_user (fst (snd (snd s))) email pw)"
      using hs [of "\<lambda>d. holds_user d email pw"] by simp
    finally show ?thesis by blast
  qed
  have d: "holds_user st email pw \<and> (\<exists>prio cip. (sid, prio, st, cip) \<in># sessions ?c') \<and>
           (heap_inv c \<longrightarrow> sid \<noteq> obj_id it)"
    if "find_session_by_credentials ?c' email pw = Inr (Some (sid, st))" for sid st
  proof -
    from that obtain x where fx: "find ?P (heap ?c') = Some x" and x: "obj_id x = sid" "data x = st"
      unfolding b by auto
    from fx have px: "?P x" and xin: "x \<in> set (heap ?c')"
      by (auto simp: find_Some_iff)
    from xin x have m: "(sid, priority x, st, client_ip x) \<in># sessions ?c'"
      unfolding in_sessions_iff by blast
    have "sid \<noteq> obj_id it" if "heap_inv c"
      using evicted_id_gone [OF that a] m by force
    with px x m show ?thesis by blast
  qed
  have g: "\<exists>sid st. find_session_by_credentials ?c' email pw = Inr (Some (sid, st)) \<and>
               ((\<forall>s \<in># sessions ?c'.
                   holds_user (fst (snd (snd s))) email pw \<longrightarrow> fst (snd (snd s)) = data it) \<longrightarrow>
                st = data it)"
    if h: "holds_user (data it) email pw" and sh: "\<exists>s \<in># sessions ?c'. fst (snd (snd s)) = data it"
  proof -
    from sh obtain s0 where "s0 \<in># sessions ?c'" "fst (snd (snd s0)) = data it" by blast
    with h have "\<not> (\<forall>s \<in># sessions ?c'. \<not> holds_user (fst (snd (snd s))) email pw)"
      by (intro notI) (metis (no_types, lifting))
    with e have "find_session_by_credentials ?c' email pw \<noteq> Inr None" by simp
    with b obtain sid st where r: "find_session_by_credentials ?c' email pw = Inr (Some (sid, st))"
      by (cases "find ?P (heap ?c')") auto
    from d [OF r] obtain prio cip where
      "holds_user st email pw" "(sid, prio, st, cip) \<in># sessions ?c'" by blast
    then have "st = data it"
      if "\<forall>s \<in># sessions ?c'. holds_user (fst (snd (snd s))) email pw \<longrightarrow> fst (snd (snd s)) = data it"
      using that by force
    with r show ?thesis by blast
  qed
  from a b e d g show ?thesis by blast
qed

text \<open>A storage with one registered user, and containers that hold it.\<close>

definition demo_storage :: InMemoryStorage where
  "demo_storage =
     \<lparr>users = snd (InMemoryModel_add 64
                \<lparr>max_count = 60, objects = [], last_accessed_ids = [], current_id_counter = 1\<rparr>
                [(''email'', PyStr ''shared@example.com''), (''username'', PyStr ''shareduser''),
                 (''password'', PyStr ''hashed_password''), (''bio'', PyStr ''Shared storage user''),
                 (''image'', PyStr [])]),
      articles = \<lparr>max_count = 20, objects = [], last_accessed_ids = [], current_id_counter = 1\<rparr>,
      comments = \<lparr>max_count = 20, objects = [], last_accessed_ids = [], current_id_counter = 1\<rparr>,
      follows = InMemoryLinks_init 100, favorites = InMemoryLinks_init 100\<rparr>"

definition one_session :: "InMemoryStorage container" where
  "one_session = snd (push 30 (new_container False 3000) 100 ''session_a'' demo_storage None)"

definition two_sessions :: "InMemoryStorage container" where
  "two_sessions = snd (push 30 one_session 200 ''session_b'' demo_storage None)"

theorem C4_lookup_after_eviction_witness:
  "\<not> DISABLE_ISOLATION_MODE two_sessions \<and>
   fst (pop two_sessions)
     = Inr (Some \<lparr>priority = 100, obj_id = ''session_a'', data = demo_storage, index = 0,
                   client_ip = None\<rparr>) \<and>
   users_well_formed (snd (pop two_sessions)) \<and>
   holds_user demo_storage ''shared@example.com'' ''hashed_password'' \<and>
   \<not> holds_user demo_storage ''shared@example.com'' ''wrong_password'' \<and>
   find_session_by_credentials (snd (pop two_sessions)) ''shared@example.com'' ''hashed_password''
     = Inr (Some (''session_b'', demo_storage)) \<and>
   find_session_by_credentials (snd (pop two_sessions)) ''shared@example.com'' ''wrong_password''
     = Inr None"
proof -
  let ?it = "\<lparr>priority = 100, obj_id = ''session_a'', data = demo_storage, index = 0,
                   client_ip = None\<rparr> :: InMemoryStorage item"
  have iso: "\<not> DISABLE_ISOLATION_MODE two_sessions" by code_simp
  have p: "fst (pop two_sessions) = Inr (Some ?it)" by code_simp
  have wf: "users_well_formed (snd (pop two_sessions))" by code_simp
  have h: "holds_user demo_storage ''shared@example.com'' ''hashed_password''" by code_simp
  have nh: "\<not> holds_user demo_storage ''shared@example.com'' ''wrong_password''" by code_simp
  have hp: "map data (heap (snd (pop two_sessions))) = [demo_storage]" by code_simp
  have ids: "map obj_id (heap (snd (pop two_sessions))) = [''session_b'']" by code_simp
  obtain x where hx: "heap (snd (pop two_sessions)) = [x]" "data x = demo_storage"
    "obj_id x = ''session_b''"
    using hp ids by (cases "heap (snd (pop two_sessions))") auto
  note t = C4_lookup_after_eviction [OF iso p wf]
  from t [of "''shared@example.com''" "''hashed_password''"] hx h
  have f1: "find_session_by_credentials (snd (pop two_sessions)) ''shared@example.com'' ''hashed_password''
     = Inr (Some (''session_b'', demo_storage))" by simp
  from t [of "''shared@example.com''" "''wrong_password''"] hx nh
  have f2: "find_session_by_credentials (snd (pop two_sessions)) ''shared@example.com'' ''wrong_password''
     = Inr None" by simp
  from iso p wf h nh f1 f2 show ?thesis by blast
qed

theorem C4_sole_session_evicted_counterexample:
  "holds_user demo_storage ''shared@example.com'' ''hashed_password'' \<and>
   find_session_by_credentials one_session ''shared@example.com'' ''hashed_password''
     = Inr (Some (''session_a'', demo_storage)) \<and>
   fst (pop one_session)
     = Inr (Some \<lparr>priority = 100, obj_id = ''session_a'', data = demo_storage, index = 0,
                   client_ip = None\<rparr>) \<and>
   find_session_by_credentials (snd (pop one_session)) ''shared@example.com'' ''hashed_password''
     = Inr None"
proof -
  have "holds_user demo_storage ''shared@example.com'' ''hashed_password''" by code_simp
  moreover have "find_session_by_credentials one_session ''shared@example.com'' ''hashed_password''
     = Inr (Some (''session_a'', demo_storage))" by code_simp
  moreover have "fst (pop one_session)
     = Inr (Some \<lparr>priority = 100, obj_id = ''session_a'', data = demo_storage, index = 0,
                   client_ip = None\<rparr>)" by code_simp
  moreover have "find_session_by_credentials (snd (pop one_session)) ''shared@example.com'' ''hashed_password''
     = Inr None" by code_simp
  ultimately show ?thesis by blast
qed


section \<open>Snapshot of the container\<close>

text \<open>
  \<open>save_data\<close> empties the container with the public \<open>pop\<close>, keeping for each popped entry
  its priority, session id, storage and client address, then gives every kept entry back
  to the public \<open>push\<close>, and only then writes the file. The dictionary \<open>data\<close> that is
  written maps each session id to its storage; rendering a storage as JSON and writing it
  is the parameter \<open>write_file\<close>, which answers whether the write succeeded (an exception
  of the write is caught, and \<open>save_data\<close> then returns \<open>False\<close>). An exception of \<open>pop\<close>
  or \<open>push\<close> is not caught. The loop runs while the source's heap is not empty, which
  it also is with the shared storage in slot 0; \<open>pop\<close> then raises \<open>TypeError\<close>.
\<close>

type_synonym 'd saved_item = "int \<times> string \<times> 'd \<times> string option"

lemma pop_nonempty_not_None:
  "\<not> (heap c = [] \<and> shared_storage c = None) \<Longrightarrow> fst (pop c) \<noteq> Inr None"
  by (cases "heap c"; cases "shared_storage c") (auto simp: pop_def priv_pop_def Let_def)

lemma pop_shrinks: "fst (pop c) = Inr (Some it) \<Longrightarrow> length (heap (snd (pop c))) < length (heap c)"
proof -
  assume "fst (pop c) = Inr (Some it)"
  from pop_heap_sessions [OF this] have "size (sessions c) = Suc (size (sessions (snd (pop c))))"
    by simp
  then show ?thesis by simp
qed

function drain ::
  "'d container \<Rightarrow> 'd saved_item list \<Rightarrow> (string \<times> 'd) list \<Rightarrow>
   (error + 'd saved_item list \<times> (string \<times> 'd) list) \<times> 'd container" where
  "drain c saved_items dat =
     (if heap c = [] \<and> shared_storage c = None then (Inr (saved_items, dat), c)
      else
        (case pop c of
           (Inl e, c1) \<Rightarrow> (Inl e, c1)
         | (Inr None, c1) \<Rightarrow> drain c1 saved_items dat
         | (Inr (Some heap_item), c1) \<Rightarrow>
             drain c1
               (saved_items @
                  [(priority heap_item, obj_id heap_item, data heap_item, client_ip heap_item)])
               (AList.update (obj_id heap_item) (data heap_item) dat)))"
  by pat_completeness auto
termination
proof (relation "measure (\<lambda>(c, s, d). length (heap c))")
  show "wf (measure (\<lambda>(c :: 'd container, s :: 'd saved_item list, d :: (string \<times> 'd) list). length (heap c)))"
    by simp
next
  fix c :: "'d container" and saved_items :: "'d saved_item list" and dat :: "(string \<times> 'd) list"
    and x c1 b
  assume ne: "\<not> (heap c = [] \<and> shared_storage c = None)"
    and "(x, c1) = pop c" "x = Inr b" "b = None"
  then have "fst (pop c) = Inr None" by (metis fst_conv)
  with pop_nonempty_not_None [OF ne]
  show "((c1, saved_items, dat), c, saved_items, dat) \<in> measure (\<lambda>(c, s, d). length (heap c))"
    by simp
next
  fix c :: "'d container" and saved_items :: "'d saved_item list" and dat :: "(string \<times> 'd) list"
    and x c1 b heap_item
  assume a: "\<not> (heap c = [] \<and> shared_storage c = None)" "(x, c1) = pop c" "x = Inr b"
    "b = Some heap_item"
  then have "fst (pop c) = Inr (Some heap_item)" by (metis fst_conv)
  from pop_shrinks [OF this] a(2) have "length (heap c1) < length (heap c)" by (metis snd_conv)
  then show "((c1, saved_items @
                  [(priority heap_item, obj_id heap_item, data heap_item, client_ip heap_item)],
                AList.update (obj_id heap_item) (data heap_item) dat), c, saved_items, dat)
      \<in> measure (\<lambda>(c, s, d). length (heap c))"
    by simp
qed

declare drain.simps [simp del]

fun repush :: "int \<Rightarrow> 'd container \<Rightarrow> 'd saved_item list \<Rightarrow> (error + unit) \<times> 'd container" where
  "repush MAX_SESSIONS_PER_IP c [] = (Inr (), c)"
| "repush MAX_SESSIONS_PER_IP c ((prio, session_id, storage, cip) # rest) =
     (case push MAX_SESSIONS_PER_IP c prio session_id storage cip of
        (Inl e, c1) \<Rightarrow> (Inl e, c1)
      | (Inr _, c1) \<Rightarrow> repush MAX_SESSIONS_PER_IP c1 rest)"

definition save_data ::
  "int \<Rightarrow> bool \<Rightarrow> ((string \<times> 'd) list \<Rightarrow> bool) \<Rightarrow> 'd container \<Rightarrow> (error + bool) \<times> 'd container" where
  "save_data MAX_SESSIONS_PER_IP DATA_FILE_PATH write_file c =
     (if \<not> DATA_FILE_PATH then (Inr False, c)
      else
        (case drain c [] [] of
           (Inl e, c1) \<Rightarrow> (Inl e, c1)
         | (Inr (saved_items, dat), c1) \<Rightarrow>
             (case repush MAX_SESSIONS_PER_IP c1 saved_items of
                (Inl e, c2) \<Rightarrow> (Inl e, c2)
              | (Inr _, c2) \<Rightarrow> (Inr (write_file dat), c2))))"

subsection \<open>Containers whose address lists agree with the queue\<close>

text \<open>The address a stored client address is counted under, if any.\<close>

definition address_of :: "string option \<Rightarrow> string option" where
  "address_of cip = (if truthy cip then Some (normalize_ip_for_limiting (the cip)) else None)"

text \<open>Every id in an address list names a queued session that is counted under that address.\<close>

definition lists_live :: "'d container \<Rightarrow> bool" where
  "lists_live c \<longleftrightarrow>
     (\<forall>(ip, l) \<in> set (ip_to_sessions c). \<forall>sid \<in> set l.
        \<exists>it \<in> set (heap c). obj_id it = sid \<and> address_of (client_ip it) = Some ip)"

text \<open>No address has more queued sessions counted under it than the cap.\<close>

definition within_cap :: "int \<Rightarrow> 'd container \<Rightarrow> bool" where
  "within_cap MAX_SESSIONS_PER_IP c \<longleftrightarrow>
     (\<forall>it \<in> set (heap c).
        case address_of (client_ip it) of
          None \<Rightarrow> True
        | Some ip \<Rightarrow>
            int (length (filter (\<lambda>x. address_of (client_ip x) = Some ip) (heap c)))
              \<le> MAX_SESSIONS_PER_IP)"

text \<open>
  A consistent container: the source's heap holds entries only (no shared storage in
  slot 0), heap and index map are well formed, and the address lists agree with the queue.
\<close>

definition container_consistent :: "int \<Rightarrow> 'd container \<Rightarrow> bool" where
  "container_consistent MAX_SESSIONS_PER_IP c \<longleftrightarrow>
     shared_storage c = None \<and> heap_inv c \<and> lists_live c \<and> within_cap MAX_SESSIONS_PER_IP c"

text \<open>The same, read through the sessions and the lookups of the address table.\<close>

definition listed_live :: "'d container \<Rightarrow> bool" where
  "listed_live c \<longleftrightarrow>
     (\<forall>ip l sid. map_of (ip_to_sessions c) ip = Some l \<longrightarrow> sid \<in> set l \<longrightarrow>
        (\<exists>s \<in># sessions c. fst s = sid \<and> address_of (snd (snd (snd s))) = Some ip))"

lemma lists_live_listed: "lists_live c \<Longrightarrow> listed_live c"
  unfolding lists_live_def listed_live_def
proof (intro allI impI)
  fix ip l sid
  assume a: "\<forall>(ip, l) \<in> set (ip_to_sessions c). \<forall>sid \<in> set l.
        \<exists>it \<in> set (heap c). obj_id it = sid \<and> address_of (client_ip it) = Some ip"
    and m: "map_of (ip_to_sessions c) ip = Some l" and s: "sid \<in> set l"
  from m have "(ip, l) \<in> set (ip_to_sessions c)" by (rule map_of_SomeD)
  with a s obtain it where it: "it \<in> set (heap c)" "obj_id it = sid"
    "address_of (client_ip it) = Some ip" by blast
  from it(1) have "session_of it \<in># sessions c" by (simp add: sessions_def)
  with it(2,3) show "\<exists>s \<in># sessions c. fst s = sid \<and> address_of (snd (snd (snd s))) = Some ip"
    by (intro bexI [of _ "session_of it"]) (simp_all add: session_of_def)
qed

lemma eviction_lists:
  assumes "map_of (ip_to_sessions (handle_client_ip_and_session_eviction c sid cip)) ip = Some l"
    and "x \<in> set l"
  shows "(\<exists>l0. map_of (ip_to_sessions c) ip = Some l0 \<and> x \<in> set l0) \<and>
         \<not> (address_of cip = Some ip \<and> x = sid)"
proof (cases "truthy cip")
  case False
  with assms show ?thesis
    by (simp add: handle_client_ip_and_session_eviction_def address_of_def)
next
  case True
  let ?nip = "normalize_ip_for_limiting (the cip)"
  show ?thesis
  proof (cases "map_of (ip_to_sessions c) ?nip")
    case None
    with True assms show ?thesis
      by (auto simp: handle_client_ip_and_session_eviction_def address_of_def Let_def)
  next
    case (Some l1)
    show ?thesis
    proof (cases "filter (\<lambda>e. e \<noteq> sid) l1 = []")
      case e: True
      with True Some assms(1)
      have "map_of (AList.delete ?nip (ip_to_sessions c)) ip = Some l"
        by (simp add: handle_client_ip_and_session_eviction_def Let_def)
      then have "ip \<noteq> ?nip \<and> map_of (ip_to_sessions c) ip = Some l"
        by (simp add: delete_conv' split: if_splits)
      with assms(2) True show ?thesis by (auto simp: address_of_def)
    next
      case ne: False
      with True Some assms(1)
      have m: "map_of (AList.update ?nip (filter (\<lambda>e. e \<noteq> sid) l1) (ip_to_sessions c)) ip = Some l"
        by (simp add: handle_client_ip_and_session_eviction_def Let_def)
      show ?thesis
      proof (cases "ip = ?nip")
        case True
        with m have "l = filter (\<lambda>e. e \<noteq> sid) l1" by (simp add: update_conv')
        with assms(2) Some True show ?thesis by auto
      next
        case False
        with m have "map_of (ip_to_sessions c) ip = Some l" by (simp add: update_conv')
        with assms(2) False True show ?thesis by (auto simp: address_of_def)
      qed
    qed
  qed
qed

lemma pop_step:
  assumes inv: "heap_inv c" and ll: "listed_live c" and ne: "heap c \<noteq> []"
    and un: "shared_storage c = None"
  shows "\<exists>it. fst (pop c) = Inr (Some it) \<and> heap_inv (snd (pop c)) \<and>
              sessions c = add_mset (session_of it) (sessions (snd (pop c))) \<and>
              listed_live (snd (pop c))"
proof -
  let ?r = "heap c ! 0"
  obtain c1 where p: "priv_pop c = (Inr (Some ?r), c1)"
    using priv_pop_result [OF inv ne un] by (metis prod.collapse)
  let ?c' = "handle_client_ip_and_session_eviction c1 (obj_id ?r) (client_ip ?r)"
  have pc: "pop c = (Inr (Some ?r), ?c')" using p by (simp add: pop_def)
  then have f: "fst (pop c) = Inr (Some ?r)" by simp
  have s: "sessions c = add_mset (session_of ?r) (sessions (snd (pop c)))"
    by (rule pop_heap_sessions [OF f])
  have ips: "ip_to_sessions c1 = ip_to_sessions c" using pop_frame(1) [of c] p by simp
  have "listed_live ?c'"
    unfolding listed_live_def
  proof (intro allI impI)
    fix ip l x
    assume m: "map_of (ip_to_sessions ?c') ip = Some l" and x: "x \<in> set l"
    from eviction_lists [OF m x] ips obtain l0 where
      l0: "map_of (ip_to_sessions c) ip = Some l0" "x \<in> set l0"
      and no: "\<not> (address_of (client_ip ?r) = Some ip \<and> x = obj_id ?r)" by auto
    from ll l0 obtain t where t: "t \<in># sessions c" "fst t = x"
      "address_of (snd (snd (snd t))) = Some ip" unfolding listed_live_def by blast
    from no t(2,3) have "t \<noteq> session_of ?r" by (auto simp: session_of_def)
    with t(1) s pc have "t \<in># sessions ?c'" by auto
    with t(2,3) show "\<exists>s \<in># sessions ?c'. fst s = x \<and> address_of (snd (snd (snd s))) = Some ip"
      by blast
  qed
  with pc have "listed_live (snd (pop c))" by simp
  with f s heap_inv_public_pop [OF inv] show ?thesis by blast
qed

text \<open>The sessions of a list of kept entries.\<close>

definition saved_session :: "'d saved_item \<Rightarrow> string \<times> int \<times> 'd \<times> string option" where
  "saved_session t = (case t of (prio, sid, d, cip) \<Rightarrow> (sid, prio, d, cip))"

lemma drain_ok:
  assumes "heap_inv c" "listed_live c" "shared_storage c = None"
  shows "\<exists>saved dat' c'. drain c acc dat = (Inr (acc @ saved, dat'), c') \<and> heap c' = [] \<and>
           heap_inv c' \<and> listed_live c' \<and> same_config c c' \<and>
           mset (map saved_session saved) = sessions c"
  using assms
proof (induction c acc dat rule: drain.induct)
  case (1 c acc dat)
  show ?case
  proof (cases "heap c = []")
    case True
    with "1.prems"(3) have "drain c acc dat = (Inr (acc @ [], dat), c)" by (simp add: drain.simps)
    moreover from True have "mset (map saved_session []) = sessions c" by (simp add: sessions_def)
    ultimately show ?thesis using True "1.prems" same_config_refl by blast
  next
    case False
    from False have ne: "\<not> (heap c = [] \<and> shared_storage c = None)" by simp
    from pop_step [OF "1.prems"(1,2) False "1.prems"(3)] obtain it where
      f: "fst (pop c) = Inr (Some it)" and i: "heap_inv (snd (pop c))"
      and s: "sessions c = add_mset (session_of it) (sessions (snd (pop c)))"
      and l: "listed_live (snd (pop c))" by blast
    obtain c1 where pc: "pop c = (Inr (Some it), c1)" using f by (metis prod.collapse)
    let ?t = "(priority it, obj_id it, data it, client_ip it)"
    from pc i l have i1: "heap_inv c1" and l1: "listed_live c1" by simp_all
    have u1: "shared_storage c1 = None"
      using same_config_pop [of c] pc "1.prems"(3) by (simp add: same_config_def)
    from "1.IH"(2) [OF ne pc [symmetric] refl refl i1 l1 u1]
    obtain saved dat' c' where
      d: "drain c1 (acc @ [?t]) (AList.update (obj_id it) (data it) dat) = (Inr ((acc @ [?t]) @ saved, dat'), c')"
      and r: "heap c' = []" "heap_inv c'" "listed_live c'" "same_config c1 c'"
        "mset (map saved_session saved) = sessions c1" by blast
    have "drain c acc dat = (Inr (acc @ (?t # saved), dat'), c')"
      using ne pc d by (subst drain.simps) simp
    moreover have "same_config c c'"
      using same_config_pop [of c] pc r(4) same_config_trans by fastforce
    moreover have "mset (map saved_session (?t # saved)) = sessions c"
      using s pc r(5) by (simp add: saved_session_def session_of_def)
    ultimately show ?thesis using r(1,2,3) by blast
  qed
qed

lemma drained_lists_empty:
  assumes "listed_live c" "heap c = []"
  shows "sessions_of_ip c ip = []"
proof (cases "map_of (ip_to_sessions c) ip")
  case None
  then show ?thesis by (simp add: sessions_of_ip_def)
next
  case (Some l)
  have "l = []"
  proof (rule ccontr)
    assume "l \<noteq> []"
    then obtain x where "x \<in> set l" by (cases l) auto
    with assms(1) Some obtain s where "s \<in># sessions c" unfolding listed_live_def by blast
    with assms(2) show False by (simp add: sessions_def)
  qed
  with Some show ?thesis by (simp add: sessions_of_ip_def)
qed

text \<open>How many of the kept entries are counted under an address.\<close>

definition saved_at :: "string \<Rightarrow> 'd saved_item list \<Rightarrow> nat" where
  "saved_at ip items = length (filter (\<lambda>t. address_of (snd (snd (snd t))) = Some ip) items)"

lemma saved_at_Cons:
  "saved_at ip ((p, sid, d, cip) # rest) =
     (if address_of cip = Some ip then Suc (saved_at ip rest) else saved_at ip rest)"
  by (simp add: saved_at_def)

lemma sessions_of_ip_update:
  "ip_to_sessions c' = AList.update nip l (ip_to_sessions c) \<Longrightarrow>
   sessions_of_ip c' ip = (if ip = nip then l else sessions_of_ip c ip)"
  by (simp add: sessions_of_ip_def update_conv')

lemma repush_ok:
  assumes "heap_inv c" and "distinct (map (\<lambda>t. fst (snd t)) items)"
    and "\<forall>t \<in> set items. fst (snd t) \<notin> fst ` set_mset (sessions c)"
    and "\<forall>t \<in> set items. \<forall>ip. address_of (snd (snd (snd t))) = Some ip \<longrightarrow>
           int (length (sessions_of_ip c ip) + saved_at ip items) \<le> K"
  shows "\<exists>c'. repush K c items = (Inr (), c') \<and> heap_inv c' \<and> same_config c c' \<and>
           sessions c' = sessions c + mset (map saved_session items)"
  using assms
proof (induction items arbitrary: c)
  case Nil
  then show ?case by simp
next
  case (Cons t rest)
  obtain p sid d cip where t: "t = (p, sid, d, cip)" by (cases t) auto
  let ?c1 = "snd (push K c p sid d cip)"
  from Cons.prems(3) t have "sid \<notin> fst ` set_mset (sessions c)" by simp
  with heap_inv_key_iff [OF Cons.prems(1)] have fresh: "sid \<notin> fst ` set (index_map c)" by simp
  have step: "fst (push K c p sid d cip) = Inr () \<and> heap_inv ?c1 \<and>
         sessions ?c1 = add_mset (sid, p, d, cip) (sessions c) \<and>
         (\<forall>ip. sessions_of_ip ?c1 ip =
            (if address_of cip = Some ip then sessions_of_ip c ip @ [sid] else sessions_of_ip c ip))"
  proof (cases "truthy cip")
    case False
    from push_no_address [OF Cons.prems(1) fresh False, of K p d] False
    show ?thesis by (simp add: sessions_of_ip_def address_of_def)
  next
    case True
    let ?nip = "normalize_ip_for_limiting (the cip)"
    from True have a: "address_of cip = Some ?nip" by (simp add: address_of_def)
    with Cons.prems(4) t
    have "int (length (sessions_of_ip c ?nip) + saved_at ?nip ((p, sid, d, cip) # rest)) \<le> K"
      by simp
    with a have room: "int (length (sessions_of_ip c ?nip)) < K" by (simp add: saved_at_Cons)
    from push_no_eviction [OF Cons.prems(1) fresh True room, of prio d for prio]
    have r: "fst (push K c p sid d cip) = Inr ()" "heap_inv ?c1"
      "sessions ?c1 = add_mset (sid, p, d, cip) (sessions c)"
      "ip_to_sessions ?c1 = AList.update ?nip (sessions_of_ip c ?nip @ [sid]) (ip_to_sessions c)"
      by blast+
    from sessions_of_ip_update [OF r(4)] a
    have "\<forall>ip. sessions_of_ip ?c1 ip =
            (if address_of cip = Some ip then sessions_of_ip c ip @ [sid] else sessions_of_ip c ip)"
      by auto
    with r(1,2,3) show ?thesis by blast
  qed
  obtain c1 where pu: "push K c p sid d cip = (Inr (), c1)" using step by (metis prod.collapse)
  with step have i1: "heap_inv c1" and s1: "sessions c1 = add_mset (sid, p, d, cip) (sessions c)"
    and a1: "\<And>ip. sessions_of_ip c1 ip =
            (if address_of cip = Some ip then sessions_of_ip c ip @ [sid] else sessions_of_ip c ip)"
    by simp_all
  from Cons.prems(2) t have d1: "distinct (map (\<lambda>t. fst (snd t)) rest)"
    and nsid: "\<forall>u \<in> set rest. fst (snd u) \<noteq> sid" by auto
  have f1: "\<forall>u \<in> set rest. fst (snd u) \<notin> fst ` set_mset (sessions c1)"
  proof
    fix u assume u: "u \<in> set rest"
    with Cons.prems(3) have "fst (snd u) \<notin> fst ` set_mset (sessions c)" by simp
    with nsid u show "fst (snd u) \<notin> fst ` set_mset (sessions c1)" unfolding s1 by auto
  qed
  have b1: "\<forall>u \<in> set rest. \<forall>ip. address_of (snd (snd (snd u))) = Some ip \<longrightarrow>
           int (length (sessions_of_ip c1 ip) + saved_at ip rest) \<le> K"
  proof (intro ballI allI impI)
    fix u ip assume u: "u \<in> set rest" and au: "address_of (snd (snd (snd u))) = Some ip"
    from Cons.prems(4) u au
    have "int (length (sessions_of_ip c ip) + saved_at ip (t # rest)) \<le> K" by simp
    then show "int (length (sessions_of_ip c1 ip) + saved_at ip rest) \<le> K"
      unfolding t saved_at_Cons a1 by (simp split: if_splits)
  qed
  from Cons.IH [OF i1 d1 f1 b1] obtain c' where
    r: "repush K c1 rest = (Inr (), c')" "heap_inv c'" "same_config c1 c'"
       "sessions c' = sessions c1 + mset (map saved_session rest)" by blast
  have "repush K c (t # rest) = (Inr (), c')" using t pu r(1) by simp
  moreover have "same_config c c'"
    using same_config_push [of c K p sid d cip] pu r(3) same_config_trans by fastforce
  moreover have "sessions c' = sessions c + mset (map saved_session (t # rest))"
    using r(4) s1 t by (simp add: saved_session_def)
  ultimately show ?case using r(2) by blast
qed

lemma saved_at_mset:
  "saved_at ip items =
     size (filter_mset (\<lambda>s. address_of (snd (snd (snd s))) = Some ip) (mset (map saved_session items)))"
  by (induction items) (auto simp: saved_at_def saved_session_def)

lemma items_at_mset:
  "length (filter (\<lambda>x. address_of (client_ip x) = Some ip) xs) =
     size (filter_mset (\<lambda>s. address_of (snd (snd (snd s))) = Some ip) (mset (map session_of xs)))"
  by (induction xs) (auto simp: session_of_def)

lemma heap_at_mset:
  "length (filter (\<lambda>x. address_of (client_ip x) = Some ip) (heap c)) =
     size (filter_mset (\<lambda>s. address_of (snd (snd (snd s))) = Some ip) (sessions c))"
  unfolding sessions_def by (rule items_at_mset)

lemma saved_ids: "map (\<lambda>t. fst (snd t)) items = map fst (map saved_session items)"
  by (induction items) (auto simp: saved_session_def)

text \<open>
  With the shared storage of non-isolated mode in slot 0, the first \<open>pop\<close> of the loop
  raises: \<open>save_data\<close> ends with \<open>TypeError\<close>, before any write, and changes nothing.
\<close>

lemma save_data_shared_raises:
  "shared_storage c = Some s \<Longrightarrow> save_data K True w c = (Inl TypeError, c)"
  by (simp add: save_data_def drain.simps pop_def)

lemma save_data_write_irrelevant:
  "snd (save_data K path w c) = snd (save_data K path w' c)"
  by (simp add: save_data_def split: prod.splits sum.splits)

text \<open>
  Claim C8, as amended. For every container state that is consistent (the heap holds
  session entries only, with no shared storage in slot 0; the heap and the index map are
  well formed; every id in an address list names a queued session counted under that
  address; and no address has more queued sessions than \<open>MAX_SESSIONS_PER_IP\<close>),
  \<open>save_data\<close> raises nothing and leaves exactly the same sessions
  in the container: the same ids with the same priorities, payloads and client addresses.
  The heap stays well formed and the token tables and settings are untouched. Whether the
  file write succeeds changes only the returned flag, never the container, and a failed
  write returns \<open>False\<close>.
\<close>

theorem C8_save_data_keeps_sessions:
  assumes "container_consistent K c"
  shows "(\<exists>r. fst (save_data K path write_file c) = Inr r) \<and>
         sessions (snd (save_data K path write_file c)) = sessions c \<and>
         heap_inv (snd (save_data K path write_file c)) \<and>
         same_config c (snd (save_data K path write_file c)) \<and>
         snd (save_data K path write_file c) = snd (save_data K path (\<lambda>dat. False) c) \<and>
         fst (save_data K path (\<lambda>dat. False) c) = Inr False"
proof (cases path)
  case False
  then have "save_data K path w c = (Inr False, c)" for w by (simp add: save_data_def)
  with assms show ?thesis by (auto simp: container_consistent_def)
next
  case True
  from assms have inv: "heap_inv c" and ll: "listed_live c" and cap: "within_cap K c"
    and un: "shared_storage c = None"
    by (simp_all add: container_consistent_def lists_live_listed)
  from drain_ok [OF inv ll un, of "[]" "[]"] obtain saved dat' c1 where
    d: "drain c [] [] = (Inr (saved, dat'), c1)" and e: "heap c1 = []" and i1: "heap_inv c1"
    and l1: "listed_live c1" and sc1: "same_config c c1"
    and ms: "mset (map saved_session saved) = sessions c" by auto
  from e have s1: "sessions c1 = {#}" by (simp add: sessions_def)
  have ms': "mset (map saved_session saved) = mset (map session_of (heap c))"
    using ms by (simp add: sessions_def)
  have "image_mset fst (mset (map saved_session saved)) =
        image_mset fst (mset (map session_of (heap c)))"
    by (rule arg_cong [OF ms'])
  then have "mset (map fst (map saved_session saved)) = mset (map fst (map session_of (heap c)))"
    by (simp only: mset_map)
  then have "mset (map (\<lambda>t. fst (snd t)) saved) = mset (map obj_id (heap c))"
    unfolding saved_ids heap_ids .
  from mset_eq_imp_distinct_iff [OF this] heap_inv_distinct_ids [OF inv]
  have dist: "distinct (map (\<lambda>t. fst (snd t)) saved)" by simp
  have fresh: "\<forall>t \<in> set saved. fst (snd t) \<notin> fst ` set_mset (sessions c1)"
    using s1 by simp
  have bound: "\<forall>t \<in> set saved. \<forall>ip. address_of (snd (snd (snd t))) = Some ip \<longrightarrow>
           int (length (sessions_of_ip c1 ip) + saved_at ip saved) \<le> K"
  proof (intro ballI allI impI)
    fix t ip assume t: "t \<in> set saved" and a: "address_of (snd (snd (snd t))) = Some ip"
    from t have "saved_session t \<in># mset (map saved_session saved)" by simp
    then have "saved_session t \<in># sessions c" unfolding ms .
    then obtain it where it: "it \<in> set (heap c)" "session_of it = saved_session t"
      by (auto simp: sessions_def)
    from it(2) a have "address_of (client_ip it) = Some ip"
      by (cases t) (auto simp: session_of_def saved_session_def)
    with cap it(1)
    have "int (length (filter (\<lambda>x. address_of (client_ip x) = Some ip) (heap c))) \<le> K"
      unfolding within_cap_def by fastforce
    moreover have "saved_at ip saved =
        length (filter (\<lambda>x. address_of (client_ip x) = Some ip) (heap c))"
      unfolding saved_at_mset heap_at_mset ms ..
    ultimately show "int (length (sessions_of_ip c1 ip) + saved_at ip saved) \<le> K"
      using drained_lists_empty [OF l1 e, of ip] by simp
  qed
  from repush_ok [OF i1 dist fresh bound] obtain c2 where
    r: "repush K c1 saved = (Inr (), c2)" and i2: "heap_inv c2" and sc2: "same_config c1 c2"
    and s2: "sessions c2 = sessions c1 + mset (map saved_session saved)" by blast
  have sd: "save_data K path w c = (Inr (w dat'), c2)" for w
    using True d r by (simp add: save_data_def)
  have "sessions c2 = sessions c" using s2 s1 ms by simp
  moreover have "same_config c c2" using sc1 sc2 by (rule same_config_trans)
  ultimately show ?thesis using i2 by (simp add: sd)
qed

text \<open>Three sessions, two of them from one address, under the cap 2.\<close>

definition snapshot_demo :: "unit container" where
  "snapshot_demo =
     snd (push 2 (snd (push 2 (snd (push 2 (new_container False 3000)
        10 ''s1'' () (Some ''1.2.3.4''))) 20 ''s2'' () (Some ''1.2.3.4''))) 30 ''s3'' () None)"

text \<open>
  A session \<open>a\<close> of priority 0 makes the forced eviction of \<open>b\<close> remove \<open>a\<close> instead, so
  that \<open>b\<close> and \<open>c\<close> are both counted under one address while the cap is 1.
\<close>

definition over_cap_demo :: "unit container" where
  "over_cap_demo =
     snd (push 1 (snd (push 1 (snd (push 1 (new_container False 3000)
        0 ''a'' () (Some ''1.1.1.1''))) 1 ''b'' () (Some ''2.2.2.2''))) 2 ''c'' () (Some ''2.2.2.2''))"

theorem C8_save_data_keeps_sessions_witness:
  "container_consistent 2 snapshot_demo \<and>
   map session_of (heap snapshot_demo) =
     [(''s1'', 10, (), Some ''1.2.3.4''), (''s2'', 20, (), Some ''1.2.3.4''), (''s3'', 30, (), None)] \<and>
   fst (save_data 2 True (\<lambda>dat. False) snapshot_demo) = Inr False \<and>
   sessions (snd (save_data 2 True (\<lambda>dat. False) snapshot_demo)) = sessions snapshot_demo"
proof -
  let ?c0 = "new_container False 3000 :: unit container"
  let ?c1 = "snd (push 2 ?c0 10 ''s1'' () (Some ''1.2.3.4''))"
  let ?c2 = "snd (push 2 ?c1 20 ''s2'' () (Some ''1.2.3.4''))"
  have i0: "heap_inv ?c0" by (rule heap_inv_new_container)
  have "''s1'' \<notin> fst ` set (index_map ?c0)" by code_simp
  from heap_inv_public_push [OF i0 this] have i1: "heap_inv ?c1" .
  have "''s2'' \<notin> fst ` set (index_map ?c1)" by code_simp
  from heap_inv_public_push [OF i1 this] have i2: "heap_inv ?c2" .
  have "''s3'' \<notin> fst ` set (index_map ?c2)" by code_simp
  from heap_inv_public_push [OF i2 this] have i3: "heap_inv snapshot_demo"
    unfolding snapshot_demo_def .
  have l: "lists_live snapshot_demo" by code_simp
  have w: "within_cap 2 snapshot_demo" by code_simp
  have h: "map session_of (heap snapshot_demo) =
     [(''s1'', 10, (), Some ''1.2.3.4''), (''s2'', 20, (), Some ''1.2.3.4''), (''s3'', 30, (), None)]"
    by code_simp
  have un: "shared_storage snapshot_demo = None" by code_simp
  from un i3 l w have cc: "container_consistent 2 snapshot_demo"
    by (simp add: container_consistent_def)
  from C8_save_data_keeps_sessions [OF cc, of True "\<lambda>dat. False"] cc h show ?thesis by blast
qed

theorem C8_over_cap_state_counterexample:
  "map session_of (heap over_cap_demo) =
     [(''b'', 0, (), Some ''2.2.2.2''), (''c'', 2, (), Some ''2.2.2.2'')] \<and>
   fst (save_data 1 True (\<lambda>dat. True) over_cap_demo) = Inr True \<and>
   map session_of (heap (snd (save_data 1 True (\<lambda>dat. True) over_cap_demo))) =
     [(''c'', 2, (), Some ''2.2.2.2'')]"
proof -
  have "map session_of (heap over_cap_demo) =
     [(''b'', 0, (), Some ''2.2.2.2''), (''c'', 2, (), Some ''2.2.2.2'')]" by code_simp
  moreover have "fst (save_data 1 True (\<lambda>dat. True) over_cap_demo) = Inr True" by code_simp
  moreover have "map session_of (heap (snd (save_data 1 True (\<lambda>dat. True) over_cap_demo))) =
     [(''c'', 2, (), Some ''2.2.2.2'')]" by code_simp
  ultimately show ?thesis by blast
qed

end
